theory Spec2Isabelle
  imports Complex_Main "HOL-Library.Word" "HOL-Library.Stream"
begin

section \<open>Data model\<close>

text \<open>
  The BLE console driver (\<^verbatim>\<open>drivers/monocle_ble.c\<close>) and the battery estimator
  (\<^verbatim>\<open>port/driver/battery.c\<close>) are embedded as pure functions over explicit state.
  C's fixed-width unsigned integers are words; an access outside an array and a failing
  \<^verbatim>\<open>NRFX_ASSERT\<close> are error values, so that every function below says where the C
  code would leave defined behaviour.
\<close>

type_synonym uint8_t = "8 word"
type_synonym uint16_t = "16 word"
type_synonym uint32_t = "32 word"

datatype error = Out_of_bounds | Assert_failed | Not_representable

subsection \<open>Constants\<close>

definition RING_BUFFER_LENGTH :: nat where
  "RING_BUFFER_LENGTH = 1024 + 45"

definition MAX_MTU_LENGTH :: nat where
  "MAX_MTU_LENGTH = 128"

text \<open>
  Return codes and handle sentinels of the SoftDevice headers (\<^verbatim>\<open>nrf_error.h\<close>,
  \<^verbatim>\<open>ble_err.h\<close>, \<^verbatim>\<open>ble_types.h\<close>, \<^verbatim>\<open>ble_gap.h\<close>). The driver only compares
  against them.
\<close>

definition NRF_SUCCESS :: uint32_t where
  "NRF_SUCCESS = 0"

definition NRF_ERROR_INVALID_STATE :: uint32_t where
  "NRF_ERROR_INVALID_STATE = 8"

definition NRF_ERROR_RESOURCES :: uint32_t where
  "NRF_ERROR_RESOURCES = 19"

definition BLE_ERROR_INVALID_CONN_HANDLE :: uint32_t where
  "BLE_ERROR_INVALID_CONN_HANDLE = 0x3002"

definition BLE_CONN_HANDLE_INVALID :: uint16_t where
  "BLE_CONN_HANDLE_INVALID = 0xFFFF"

definition BLE_GAP_ADV_SET_HANDLE_NOT_SET :: uint8_t where
  "BLE_GAP_ADV_SET_HANDLE_NOT_SET = 0xFF"

subsection \<open>Ring buffer\<close>

text \<open>
  \<^verbatim>\<open>typedef struct { uint8_t buffer[RING_BUFFER_LENGTH]; uint16_t head; uint16_t tail; } ring_buf_t;\<close>
  The array is a list; \<open>sizeof(ring->buffer)\<close> is \<open>RING_BUFFER_LENGTH\<close>.
\<close>

record ring_buf_t =
  buffer :: "uint8_t list"
  head :: uint16_t
  tail :: uint16_t

text \<open>The value of the zero-initialised globals \<^verbatim>\<open>rx\<close> and \<^verbatim>\<open>tx\<close>.\<close>

definition ring_zero :: ring_buf_t where
  "ring_zero = \<lparr>buffer = replicate RING_BUFFER_LENGTH 0, head = 0, tail = 0\<rparr>"

definition ring_full :: "ring_buf_t \<Rightarrow> bool" where
  "ring_full ring =
     (let next = tail ring + 1;
          next = (if unat next = RING_BUFFER_LENGTH then 0 else next)
      in next = head ring)"

definition ring_empty :: "ring_buf_t \<Rightarrow> bool" where
  "ring_empty ring = (head ring = tail ring)"

text \<open>
  \<^verbatim>\<open>ring->buffer[ring->tail++] = byte; if (ring->tail == sizeof(ring->buffer)) ring->tail = 0;\<close>
  The C code has no bounds check: an index outside the array is undefined behaviour,
  which the model reports as \<open>Out_of_bounds\<close>.
\<close>

definition ring_push :: "ring_buf_t \<Rightarrow> uint8_t \<Rightarrow> error + ring_buf_t" where
  "ring_push ring byte =
     (if unat (tail ring) < RING_BUFFER_LENGTH \<and> unat (tail ring) < length (buffer ring) then
        (let ring = ring\<lparr>buffer := (buffer ring)[unat (tail ring) := byte],
                           tail := tail ring + 1\<rparr>
         in Inr (if unat (tail ring) = RING_BUFFER_LENGTH then ring\<lparr>tail := 0\<rparr> else ring))
      else Inl Out_of_bounds)"

definition ring_pop :: "ring_buf_t \<Rightarrow> error + (uint8_t \<times> ring_buf_t)" where
  "ring_pop ring =
     (if unat (head ring) < RING_BUFFER_LENGTH \<and> unat (head ring) < length (buffer ring) then
        (let byte = buffer ring ! unat (head ring);
             ring = ring\<lparr>head := head ring + 1\<rparr>
         in Inr (byte, if unat (head ring) = RING_BUFFER_LENGTH then ring\<lparr>head := 0\<rparr> else ring))
      else Inl Out_of_bounds)"

text \<open>Both indices inside the array (and the list as long as the array).\<close>

definition ring_inv :: "ring_buf_t \<Rightarrow> bool" where
  "ring_inv ring \<longleftrightarrow>
     length (buffer ring) = RING_BUFFER_LENGTH \<and>
     unat (head ring) < RING_BUFFER_LENGTH \<and> unat (tail ring) < RING_BUFFER_LENGTH"

text \<open>The bytes queued in a ring buffer, oldest first: the slots from head up to tail.\<close>

definition circ :: "nat \<Rightarrow> nat \<Rightarrow> 'a list \<Rightarrow> 'a list" where
  "circ h t xs = (if h \<le> t then take (t - h) (drop h xs) else drop h xs @ take t xs)"

definition ring_contents :: "ring_buf_t \<Rightarrow> uint8_t list" where
  "ring_contents ring = circ (unat (head ring)) (unat (tail ring)) (buffer ring)"

text \<open>A run of pushes, and a run of \<open>n\<close> pops collecting the bytes returned.\<close>

fun ring_push_all :: "ring_buf_t \<Rightarrow> uint8_t list \<Rightarrow> error + ring_buf_t" where
  "ring_push_all ring [] = Inr ring"
| "ring_push_all ring (byte # bytes) =
     (case ring_push ring byte of Inl e \<Rightarrow> Inl e | Inr ring' \<Rightarrow> ring_push_all ring' bytes)"

fun ring_pop_n :: "nat \<Rightarrow> ring_buf_t \<Rightarrow> error + (uint8_t list \<times> ring_buf_t)" where
  "ring_pop_n 0 ring = Inr ([], ring)"
| "ring_pop_n (Suc n) ring =
     (case ring_pop ring of
        Inl e \<Rightarrow> Inl e
      | Inr (byte, ring') \<Rightarrow>
          (case ring_pop_n n ring' of
             Inl e \<Rightarrow> Inl e
           | Inr (bytes, ring'') \<Rightarrow> Inr (byte # bytes, ring'')))"

text \<open>Any interleaving of the four operations, with no caller discipline assumed.\<close>

datatype ring_op = Push uint8_t | Pop | Full | Empty

fun ring_apply :: "ring_op \<Rightarrow> ring_buf_t \<Rightarrow> error + ring_buf_t" where
  "ring_apply (Push byte) ring = ring_push ring byte"
| "ring_apply Pop ring = (case ring_pop ring of Inl e \<Rightarrow> Inl e | Inr (byte, ring') \<Rightarrow> Inr ring')"
| "ring_apply Full ring = (let b = ring_full ring in Inr ring)"
| "ring_apply Empty ring = (let b = ring_empty ring in Inr ring)"

fun ring_run :: "ring_op list \<Rightarrow> ring_buf_t \<Rightarrow> error + ring_buf_t" where
  "ring_run [] ring = Inr ring"
| "ring_run (x # xs) ring =
     (case ring_apply x ring of Inl e \<Rightarrow> Inl e | Inr ring' \<Rightarrow> ring_run xs ring')"

subsection \<open>Driver state and the SoftDevice\<close>

text \<open>
  The SoftDevice is outside the repository. Each call to it is recorded in \<open>sd_trace\<close>
  with the code it returned; the codes it will return to the coming calls are the
  stream \<open>sd_pending\<close>, so that every behaviour of the radio is an input of the model.
\<close>

datatype sd_call =
    Sd_ble_gatts_hvx uint16_t uint16_t "uint8_t list"
  | Sd_ble_gap_ppcp_get
  | Sd_ble_gap_conn_param_update uint16_t
  | Sd_ble_gap_adv_start uint8_t
  | Sd_ble_gap_phy_update uint16_t
  | Sd_ble_gatts_exchange_mtu_reply uint16_t nat
  | Sd_ble_gap_disconnect uint16_t
  | Sd_ble_gatts_sys_attr_set uint16_t
  | Sd_ble_gap_sec_params_reply uint16_t
  | Sd_setup string

record ble_state =
  connection :: uint16_t
  advertising :: uint8_t
  tx_value_handle :: uint16_t
  rx :: ring_buf_t
  tx :: ring_buf_t
  negotiated_mtu :: uint16_t
  sd_pending :: "uint32_t stream"
  sd_trace :: "(sd_call \<times> uint32_t) list"

text \<open>
  The state before \<^verbatim>\<open>ble_init\<close>: the initialisers of \<^verbatim>\<open>ble_handles\<close>, and zero for
  \<^verbatim>\<open>rx\<close>, \<^verbatim>\<open>tx\<close> and \<^verbatim>\<open>static uint16_t negotiated_mtu;\<close> which have none.
\<close>

definition ble_initial :: "uint32_t stream \<Rightarrow> ble_state" where
  "ble_initial radio =
     \<lparr>connection = BLE_CONN_HANDLE_INVALID,
      advertising = BLE_GAP_ADV_SET_HANDLE_NOT_SET,
      tx_value_handle = 0,
      rx = ring_zero,
      tx = ring_zero,
      negotiated_mtu = 0,
      sd_pending = radio,
      sd_trace = []\<rparr>"

definition sd :: "sd_call \<Rightarrow> ble_state \<Rightarrow> uint32_t \<times> ble_state" where
  "sd c s =
     (shd (sd_pending s),
      s\<lparr>sd_pending := stl (sd_pending s), sd_trace := sd_trace s @ [(c, shd (sd_pending s))]\<rparr>)"

text \<open>
  The notification frames handed to the SoftDevice, oldest first, each with the final
  answer it got: an attempt answered \<open>NRF_ERROR_RESOURCES\<close> is not a frame of its own,
  the driver offers the same frame again.
\<close>

fun hvx_frames :: "(sd_call \<times> uint32_t) list \<Rightarrow> (uint8_t list \<times> uint32_t) list" where
  "hvx_frames [] = []"
| "hvx_frames ((Sd_ble_gatts_hvx conn handle bytes, err) # cs) =
     (if err = NRF_ERROR_RESOURCES then hvx_frames cs else (bytes, err) # hvx_frames cs)"
| "hvx_frames (c # cs) = hvx_frames cs"

subsection \<open>Stream flush engine\<close>

text \<open>
  \<^verbatim>\<open>while (!ring_empty(&tx)) { out_buffer[out_len++] = ring_pop(&tx);
                               if (out_len >= negotiated_mtu) break; }\<close>
  \<open>out\<close> is the filled part of \<^verbatim>\<open>uint8_t out_buffer[MAX_MTU_LENGTH]\<close>, so \<open>out_len\<close> is
  its length; a store at index \<open>MAX_MTU_LENGTH\<close> or beyond is outside the array.
\<close>

function flush_pop_loop ::
  "ring_buf_t \<Rightarrow> uint8_t list \<Rightarrow> uint16_t \<Rightarrow> error + (ring_buf_t \<times> uint8_t list)" where
  "flush_pop_loop ring out mtu =
     (if ring_empty ring then Inr (ring, out)
      else if MAX_MTU_LENGTH \<le> length out then Inl Out_of_bounds
      else (case ring_pop ring of
              Inl e \<Rightarrow> Inl e
            | Inr (byte, ring') \<Rightarrow>
                (if unat mtu \<le> length (out @ [byte]) then Inr (ring', out @ [byte])
                 else flush_pop_loop ring' (out @ [byte]) mtu)))"
  by pat_completeness auto
termination
  by (relation "measure (\<lambda>(ring, out, mtu). MAX_MTU_LENGTH - length out)") auto

text \<open>
  \<^verbatim>\<open>do { err = sd_ble_gatts_hvx(ble_handles.connection, &hvx_params); }
  while (err == NRF_ERROR_RESOURCES);\<close>
  The loop ends only when the SoftDevice answers something else, so it is a partial
  function: \<open>None\<close> is the run that never returns. Every attempt offers the same
  frame: the SoftDevice is taken to leave \<^verbatim>\<open>*hvx_params.p_len\<close> as it is when it
  answers \<open>NRF_ERROR_RESOURCES\<close>.
\<close>

partial_function (option) hvx_retry ::
  "uint8_t list \<Rightarrow> ble_state \<Rightarrow> (uint32_t \<times> ble_state) option" where
  "hvx_retry out s =
     (case sd (Sd_ble_gatts_hvx (connection s) (tx_value_handle s) out) s of
        (err, s') \<Rightarrow> if err = NRF_ERROR_RESOURCES then hvx_retry out s' else Some (err, s'))"

definition ble_flush_tx :: "ble_state \<Rightarrow> (error + ble_state) option" where
  "ble_flush_tx s =
     (if ring_empty (tx s) then Some (Inr s)
      else (case flush_pop_loop (tx s) [] (negotiated_mtu s) of
              Inl e \<Rightarrow> Some (Inl e)
            | Inr (ring, out) \<Rightarrow>
                (case hvx_retry out (s\<lparr>tx := ring\<rparr>) of
                   None \<Rightarrow> None
                 | Some (err, s') \<Rightarrow>
                     if err = NRF_ERROR_INVALID_STATE \<or> err = BLE_ERROR_INVALID_CONN_HANDLE
                     then Some (Inr s')
                     else if err \<noteq> 0 then Some (Inl Assert_failed)
                     else Some (Inr s'))))"

text \<open>\<open>n\<close> successive calls to \<^verbatim>\<open>ble_flush_tx\<close>, stopping at the first that fails.\<close>

fun flush_calls :: "nat \<Rightarrow> ble_state \<Rightarrow> (error + ble_state) option" where
  "flush_calls 0 s = Some (Inr s)"
| "flush_calls (Suc n) s =
     (case ble_flush_tx s of
        None \<Rightarrow> None
      | Some (Inl e) \<Rightarrow> Some (Inl e)
      | Some (Inr s') \<Rightarrow> flush_calls n s')"

subsection \<open>Transport event handler\<close>

text \<open>
  The events \<^verbatim>\<open>SWI2_IRQHandler\<close> dispatches on, each with the fields of
  \<^verbatim>\<open>ble_evt_t\<close> the handler reads: the connection handle, the client's MTU, the bytes
  written (\<open>write.len\<close> is their number). Every other event id is \<open>BLE_EVT_OTHER\<close>.
\<close>

datatype ble_evt =
    BLE_GAP_EVT_CONNECTED uint16_t
  | BLE_GAP_EVT_DISCONNECTED uint16_t
  | BLE_GAP_EVT_PHY_UPDATE_REQUEST uint16_t
  | BLE_GATTS_EVT_EXCHANGE_MTU_REQUEST uint16_t uint16_t
  | BLE_GATTS_EVT_WRITE uint16_t "uint8_t list"
  | BLE_GATTC_EVT_TIMEOUT uint16_t
  | BLE_GATTS_EVT_TIMEOUT uint16_t
  | BLE_GATTS_EVT_SYS_ATTR_MISSING uint16_t
  | BLE_GAP_EVT_SEC_PARAMS_REQUEST uint16_t
  | BLE_EVT_OTHER uint16_t

text \<open>\<^verbatim>\<open>err = sd_...(...); NRFX_ASSERT(!err);\<close>\<close>

definition sd_checked :: "sd_call \<Rightarrow> ble_state \<Rightarrow> error + ble_state" where
  "sd_checked c s = (case sd c s of (err, s') \<Rightarrow> if err \<noteq> 0 then Inl Assert_failed else Inr s')"

text \<open>
  \<^verbatim>\<open>for (uint16_t length = 0; length < write.len; length++)
  { if (ring_full(&rx)) break; ring_push(&rx, write.data[length]); }\<close>
\<close>

fun gatts_write_loop :: "uint8_t list \<Rightarrow> ring_buf_t \<Rightarrow> error + ring_buf_t" where
  "gatts_write_loop [] ring = Inr ring"
| "gatts_write_loop (byte # bytes) ring =
     (if ring_full ring then Inr ring
      else (case ring_push ring byte of
              Inl e \<Rightarrow> Inl e
            | Inr ring' \<Rightarrow> gatts_write_loop bytes ring'))"

text \<open>
  The MTU assignment is evaluated as C does: the operands are promoted to \<open>int\<close>, the
  result is converted to \<open>uint16_t\<close>.
\<close>

fun ble_evt_handler :: "ble_evt \<Rightarrow> ble_state \<Rightarrow> error + ble_state" where
  "ble_evt_handler (BLE_GAP_EVT_CONNECTED conn_handle) s =
     (case sd_checked Sd_ble_gap_ppcp_get (s\<lparr>connection := conn_handle\<rparr>) of
        Inl e \<Rightarrow> Inl e
      | Inr s' \<Rightarrow> sd_checked (Sd_ble_gap_conn_param_update conn_handle) s')"
| "ble_evt_handler (BLE_GAP_EVT_DISCONNECTED conn_handle) s =
     sd_checked (Sd_ble_gap_adv_start (advertising s)) (s\<lparr>connection := BLE_CONN_HANDLE_INVALID\<rparr>)"
| "ble_evt_handler (BLE_GAP_EVT_PHY_UPDATE_REQUEST conn_handle) s =
     sd_checked (Sd_ble_gap_phy_update conn_handle) s"
| "ble_evt_handler (BLE_GATTS_EVT_EXCHANGE_MTU_REQUEST conn_handle client_mtu) s =
     (case sd_checked (Sd_ble_gatts_exchange_mtu_reply conn_handle MAX_MTU_LENGTH) s of
        Inl e \<Rightarrow> Inl e
      | Inr s' \<Rightarrow>
          Inr (s'\<lparr>negotiated_mtu :=
                    (if int MAX_MTU_LENGTH < uint client_mtu
                     then word_of_int (int MAX_MTU_LENGTH - 3)
                     else word_of_int (uint client_mtu - 3))\<rparr>))"
| "ble_evt_handler (BLE_GATTS_EVT_WRITE conn_handle bytes) s =
     (case gatts_write_loop bytes (rx s) of
        Inl e \<Rightarrow> Inl e
      | Inr ring \<Rightarrow> Inr (s\<lparr>rx := ring\<rparr>))"
| "ble_evt_handler (BLE_GATTC_EVT_TIMEOUT conn_handle) s = Inl Assert_failed"
| "ble_evt_handler (BLE_GATTS_EVT_TIMEOUT conn_handle) s =
     sd_checked (Sd_ble_gap_disconnect conn_handle) s"
| "ble_evt_handler (BLE_GATTS_EVT_SYS_ATTR_MISSING conn_handle) s =
     sd_checked (Sd_ble_gatts_sys_attr_set conn_handle) s"
| "ble_evt_handler (BLE_GAP_EVT_SEC_PARAMS_REQUEST conn_handle) s =
     sd_checked (Sd_ble_gap_sec_params_reply conn_handle) s"
| "ble_evt_handler (BLE_EVT_OTHER evt_id) s = Inr s"

text \<open>
  The handler's second loop, over the events \<^verbatim>\<open>sd_ble_evt_get\<close> hands out before it
  answers \<open>NRF_ERROR_NOT_FOUND\<close>. The first loop, over \<^verbatim>\<open>sd_evt_get\<close>, changes nothing.
\<close>

fun SWI2_IRQHandler :: "ble_evt list \<Rightarrow> ble_state \<Rightarrow> error + ble_state" where
  "SWI2_IRQHandler [] s = Inr s"
| "SWI2_IRQHandler (evt # evts) s =
     (case ble_evt_handler evt s of Inl e \<Rightarrow> Inl e | Inr s' \<Rightarrow> SWI2_IRQHandler evts s')"

subsection \<open>Initialisation\<close>

text \<open>
  \<^verbatim>\<open>ble_init\<close> and \<^verbatim>\<open>ble_add_service_tx_rx\<close> are sequences of SoftDevice calls, each
  followed by \<^verbatim>\<open>NRFX_ASSERT(!err)\<close> except \<^verbatim>\<open>sd_ble_gatts_service_add\<close>, whose result
  is not looked at. The calls are recorded by name. The SoftDevice chooses the handles
  it writes to \<^verbatim>\<open>ble_handles.tx_characteristic\<close> and \<^verbatim>\<open>ble_handles.advertising\<close>; they
  are the arguments \<open>value_handle\<close> and \<open>adv_handle\<close>. The advertising payload and the
  receive characteristic's handles are not part of the modelled state.
\<close>

fun sd_checked_all :: "sd_call list \<Rightarrow> ble_state \<Rightarrow> error + ble_state" where
  "sd_checked_all [] s = Inr s"
| "sd_checked_all (c # cs) s =
     (case sd_checked c s of Inl e \<Rightarrow> Inl e | Inr s' \<Rightarrow> sd_checked_all cs s')"

definition ble_add_service_tx_rx :: "uint8_t \<Rightarrow> uint16_t \<Rightarrow> ble_state \<Rightarrow> error + ble_state" where
  "ble_add_service_tx_rx adv_handle value_handle s =
     (case sd_checked (Sd_setup ''sd_ble_uuid_vs_add'') s of
        Inl e \<Rightarrow> Inl e
      | Inr s1 \<Rightarrow>
          (case sd (Sd_setup ''sd_ble_gatts_service_add'') s1 of
             (err, s2) \<Rightarrow>
               (case sd_checked_all
                       [Sd_setup ''sd_ble_gatts_characteristic_add'',
                        Sd_setup ''sd_ble_gatts_characteristic_add''] s2 of
                  Inl e \<Rightarrow> Inl e
                | Inr s3 \<Rightarrow>
                    (case sd_checked_all
                            [Sd_setup ''sd_ble_uuid_encode'',
                             Sd_setup ''sd_ble_gap_adv_set_configure'']
                            (s3\<lparr>tx_value_handle := value_handle\<rparr>) of
                       Inl e \<Rightarrow> Inl e
                     | Inr s4 \<Rightarrow> Inr (s4\<lparr>advertising := adv_handle\<rparr>)))))"

definition ble_init :: "uint8_t \<Rightarrow> uint16_t \<Rightarrow> ble_state \<Rightarrow> error + ble_state" where
  "ble_init adv_handle value_handle s =
     (case sd_checked_all
             [Sd_setup ''sd_softdevice_enable'',
              Sd_setup ''sd_nvic_EnableIRQ'',
              Sd_setup ''sd_power_dcdc_mode_set'',
              Sd_setup ''sd_ble_cfg_set'',
              Sd_setup ''sd_ble_cfg_set'',
              Sd_setup ''sd_ble_cfg_set'',
              Sd_setup ''sd_ble_cfg_set'',
              Sd_setup ''sd_ble_cfg_set'',
              Sd_setup ''sd_ble_cfg_set'',
              Sd_setup ''sd_ble_cfg_set'',
              Sd_setup ''sd_ble_enable'',
              Sd_setup ''sd_ble_gap_device_name_set'',
              Sd_setup ''sd_ble_gap_ppcp_set''] s of
        Inl e \<Rightarrow> Inl e
      | Inr s1 \<Rightarrow>
          (case ble_add_service_tx_rx adv_handle value_handle s1 of
             Inl e \<Rightarrow> Inl e
           | Inr s2 \<Rightarrow> sd_checked (Sd_ble_gap_adv_start (advertising s2)) s2))"

subsection \<open>Battery estimator\<close>

text \<open>
  In \<^verbatim>\<open>battery_voltage_to_percent\<close> C's \<^verbatim>\<open>float\<close> is modelled by the real numbers:
  every operation is exact, the rounding of binary32 arithmetic is left out (it is
  modelled for the travelling mean, below). The voltage handed to
  \<^verbatim>\<open>battery_voltage_to_percent\<close> may in addition be an infinity or a NaN; a comparison
  with a NaN is false. \<^verbatim>\<open>round\<close> rounds halfway cases away from zero; the conversion of
  its result to \<^verbatim>\<open>uint8_t\<close> is defined only for values that \<^verbatim>\<open>uint8_t\<close> can hold.
\<close>

datatype c_float = Finite real | PlusInf | MinusInf | NaN

definition battery_discharge_curve :: "real list" where
  "battery_discharge_curve =
     [3.80, 3.45, 3.18, 3.12, 3.10, 3.07, 3.02, 2.97, 2.89, 2.79, 2.70]"

text \<open>\<open>x < voltage\<close> in C, for a finite \<open>x\<close>.\<close>

definition float_lt :: "real \<Rightarrow> c_float \<Rightarrow> bool" where
  "float_lt x voltage =
     (case voltage of Finite y \<Rightarrow> x < y | PlusInf \<Rightarrow> True | MinusInf \<Rightarrow> False | NaN \<Rightarrow> False)"

definition c_round :: "real \<Rightarrow> int" where
  "c_round x = (if 0 \<le> x then \<lfloor>x + 1 / 2\<rfloor> else \<lceil>x - 1 / 2\<rceil>)"

definition to_uint8 :: "int \<Rightarrow> error + uint8_t" where
  "to_uint8 n = (if 0 \<le> n \<and> n \<le> 255 then Inr (word_of_int n) else Inl Not_representable)"

text \<open>
  The search loop of \<^verbatim>\<open>battery_voltage_to_percent\<close>, from index \<open>i\<close> on. At \<open>i = 0\<close>
  the read of \<^verbatim>\<open>battery_discharge_curve[i - 1]\<close> would be outside the array. A zero
  divisor or an infinite voltage would make the interpolated value an infinity or a NaN,
  which \<^verbatim>\<open>uint8_t\<close> cannot hold.
\<close>

function battery_search :: "nat \<Rightarrow> c_float \<Rightarrow> error + uint8_t" where
  "battery_search i voltage =
     (if i < length battery_discharge_curve then
        (if float_lt (battery_discharge_curve ! i) voltage then
           (if i = 0 then Inl Out_of_bounds
            else
              (case voltage of
                 Finite v \<Rightarrow>
                   (let v0 = battery_discharge_curve ! i;
                        v1 = battery_discharge_curve ! (i - 1);
                        p0 = real ((10 - i) * 10)
                    in if v1 - v0 = 0 then Inl Not_representable
                       else to_uint8 (c_round (p0 + 10 * (v - v0) / (v1 - v0))))
               | _ \<Rightarrow> Inl Not_representable))
         else battery_search (i + 1) voltage)
      else Inr 0)"
  by pat_completeness auto
termination
  by (relation "measure (\<lambda>(i, voltage). length battery_discharge_curve - i)") auto

definition battery_voltage_to_percent :: "c_float \<Rightarrow> error + uint8_t" where
  "battery_voltage_to_percent voltage =
     (if float_lt (battery_discharge_curve ! 0) voltage then Inr 100
      else battery_search 0 voltage)"

text \<open>
  The travelling mean is computed in binary32 arithmetic, and each of its operations is
  modelled with its rounding. \<open>float_round\<close> is round-to-nearest, ties to even, onto the
  binary32 numbers: a significand of 24 bits, exponents from \<open>-126\<close> to \<open>127\<close>,
  subnormal numbers as multiples of \<open>2 powi -149\<close>, and an infinity when the rounded
  magnitude reaches \<open>2 ^ 128\<close>. \<open>binade k a\<close> finds the exponent by trying
  \<open>k - 126\<close>, \<open>k - 127\<close>, ... down to \<open>-126\<close>. The two zeros are not told apart.
\<close>

definition round_even :: "real \<Rightarrow> int" where
  "round_even y =
     (let f = \<lfloor>y\<rfloor>
      in if y - of_int f < 1 / 2 then f
         else if 1 / 2 < y - of_int f then f + 1
         else if even f then f else f + 1)"

fun binade :: "nat \<Rightarrow> real \<Rightarrow> int" where
  "binade 0 a = - 126"
| "binade (Suc k) a =
     (if 2 powi (int (Suc k) - 126) \<le> a then int (Suc k) - 126 else binade k a)"

definition float_round :: "real \<Rightarrow> c_float" where
  "float_round x =
     (let e = binade 253 \<bar>x\<bar>;
          q = 2 powi (e - 23);
          n = round_even (x / q)
      in if e = 127 \<and> 2 ^ 24 \<le> \<bar>n\<bar> then (if 0 < x then PlusInf else MinusInf)
         else Finite (of_int n * q))"

text \<open>
  The operations \<^verbatim>\<open>*\<close>, \<^verbatim>\<open>+\<close> and \<^verbatim>\<open>/\<close> on \<^verbatim>\<open>float\<close>, each rounded once, with the
  IEEE 754 results on infinities and NaN. A zero divisor is taken as \<open>+0\<close>: the only
  divisor in \<^verbatim>\<open>battery_travelling_mean\<close> is the sum \<open>count + 1\<close>, which is never \<open>-0\<close>.
\<close>

fun float_mul :: "c_float \<Rightarrow> c_float \<Rightarrow> c_float" where
  "float_mul (Finite x) (Finite y) = float_round (x * y)"
| "float_mul NaN b = NaN"
| "float_mul a NaN = NaN"
| "float_mul (Finite x) PlusInf = (if x = 0 then NaN else if 0 < x then PlusInf else MinusInf)"
| "float_mul (Finite x) MinusInf = (if x = 0 then NaN else if 0 < x then MinusInf else PlusInf)"
| "float_mul PlusInf (Finite y) = (if y = 0 then NaN else if 0 < y then PlusInf else MinusInf)"
| "float_mul MinusInf (Finite y) = (if y = 0 then NaN else if 0 < y then MinusInf else PlusInf)"
| "float_mul PlusInf PlusInf = PlusInf"
| "float_mul PlusInf MinusInf = MinusInf"
| "float_mul MinusInf PlusInf = MinusInf"
| "float_mul MinusInf MinusInf = PlusInf"

fun float_add :: "c_float \<Rightarrow> c_float \<Rightarrow> c_float" where
  "float_add (Finite x) (Finite y) = float_round (x + y)"
| "float_add NaN b = NaN"
| "float_add a NaN = NaN"
| "float_add PlusInf MinusInf = NaN"
| "float_add MinusInf PlusInf = NaN"
| "float_add PlusInf b = PlusInf"
| "float_add MinusInf b = MinusInf"
| "float_add (Finite x) b = b"

fun float_div :: "c_float \<Rightarrow> c_float \<Rightarrow> c_float" where
  "float_div (Finite x) (Finite y) =
     (if y = 0 then (if x = 0 then NaN else if 0 < x then PlusInf else MinusInf)
      else float_round (x / y))"
| "float_div NaN b = NaN"
| "float_div a NaN = NaN"
| "float_div (Finite x) b = Finite 0"
| "float_div PlusInf (Finite y) = (if 0 \<le> y then PlusInf else MinusInf)"
| "float_div MinusInf (Finite y) = (if 0 \<le> y then MinusInf else PlusInf)"
| "float_div a b = NaN"

text \<open>The two \<^verbatim>\<open>static float\<close> variables of \<^verbatim>\<open>battery_travelling_mean\<close>, both initially 0.\<close>

record travelling =
  mean :: c_float
  count :: c_float

definition travelling_zero :: travelling where
  "travelling_zero = \<lparr>mean = Finite 0, count = Finite 0\<rparr>"

text \<open>
  \<^verbatim>\<open>mean = (mean * count + new * 1) / (count + 1); count = (count == 10) ? (10) : (count + 1);\<close>
  The integer constants are converted to \<^verbatim>\<open>float\<close>, which is exact. The product and
  the sum are rounded separately (no fused multiply-add).
\<close>

definition battery_travelling_mean :: "c_float \<Rightarrow> travelling \<Rightarrow> c_float \<times> travelling" where
  "battery_travelling_mean new st =
     (let m = float_div
                (float_add (float_mul (mean st) (count st)) (float_mul new (Finite 1)))
                (float_add (count st) (Finite 1));
          c = (if count st = Finite 10 then Finite 10 else float_add (count st) (Finite 1))
      in (m, \<lparr>mean = m, count = c\<rparr>))"

text \<open>Successive calls, collecting the values returned.\<close>

fun travelling_feed :: "c_float list \<Rightarrow> travelling \<Rightarrow> c_float list \<times> travelling" where
  "travelling_feed [] st = ([], st)"
| "travelling_feed (new # news) st =
     (case battery_travelling_mean new st of
        (m, st') \<Rightarrow> (case travelling_feed news st' of (ms, st'') \<Rightarrow> (m # ms, st'')))"

section \<open>Ring buffer: invariant and contents\<close>

lemma unat_succ16: "unat (w :: uint16_t) < RING_BUFFER_LENGTH \<Longrightarrow> unat (w + 1) = unat w + 1"
  by (simp add: RING_BUFFER_LENGTH_def unat_word_ariths)

lemma ring_inv_zero: "ring_inv ring_zero"
  by (simp add: ring_inv_def ring_zero_def RING_BUFFER_LENGTH_def)

lemma ring_empty_zero: "ring_empty ring_zero"
  by (simp add: ring_empty_def ring_zero_def)

lemma ring_push_inv:
  assumes "ring_inv r"
  shows "\<exists>r'. ring_push r b = Inr r' \<and> ring_inv r'"
  using assms
  by (auto simp: ring_inv_def ring_push_def Let_def unat_succ16)

lemma ring_pop_inv:
  assumes "ring_inv r"
  shows "\<exists>b r'. ring_pop r = Inr (b, r') \<and> ring_inv r'"
  using assms
  by (auto simp: ring_inv_def ring_pop_def Let_def unat_succ16)

lemma ring_apply_inv:
  assumes "ring_inv r"
  shows "\<exists>r'. ring_apply x r = Inr r' \<and> ring_inv r'"
proof (cases x)
  case (Push b)
  then show ?thesis using ring_push_inv [OF assms, of b] by simp
next
  case Pop
  then show ?thesis using ring_pop_inv [OF assms] by auto
qed (use assms in simp_all)

lemma ring_run_inv:
  "ring_inv r \<Longrightarrow> \<exists>r'. ring_run xs r = Inr r' \<and> ring_inv r'"
proof (induction xs arbitrary: r)
  case Nil
  then show ?case by simp
next
  case (Cons x xs)
  from ring_apply_inv [OF Cons.prems, of x]
  obtain r1 where r1: "ring_apply x r = Inr r1" "ring_inv r1" by blast
  from Cons.IH [OF r1(2)] r1(1) show ?case by simp
qed

lemma ring_empty_contents:
  "ring_inv r \<Longrightarrow> ring_empty r \<longleftrightarrow> ring_contents r = []"
  by (auto simp: ring_inv_def ring_empty_def ring_contents_def circ_def word_unat_eq_iff)

lemma length_ring_contents:
  "ring_inv r \<Longrightarrow> length (ring_contents r) =
     (if unat (head r) \<le> unat (tail r) then unat (tail r) - unat (head r)
      else RING_BUFFER_LENGTH - unat (head r) + unat (tail r))"
  by (auto simp: ring_inv_def ring_contents_def circ_def)

lemma ring_full_contents:
  "ring_inv r \<Longrightarrow> ring_full r \<longleftrightarrow> length (ring_contents r) = RING_BUFFER_LENGTH - 1"
  apply (simp add: length_ring_contents)
  apply (auto simp: ring_inv_def ring_full_def Let_def unat_succ16 word_unat_eq_iff)
  done

lemma length_ring_contents_le:
  "ring_inv r \<Longrightarrow> length (ring_contents r) \<le> RING_BUFFER_LENGTH - 1"
  by (auto simp: length_ring_contents ring_inv_def)

lemma take_drop_upd_snoc:
  assumes "h \<le> t" "t < length xs"
  shows "take (Suc t - h) (drop h (xs[t := b])) = take (t - h) (drop h xs) @ [b]"
proof -
  have "take (Suc t - h) (drop h (xs[t := b])) = take (Suc (t - h)) (drop h (xs[t := b]))"
    using assms by (simp add: Suc_diff_le)
  also have "\<dots> = take (t - h) (drop h (xs[t := b])) @ [drop h (xs[t := b]) ! (t - h)]"
    using assms by (simp add: take_Suc_conv_app_nth)
  also have "\<dots> = take (t - h) (drop h xs) @ [b]"
    using assms by (simp add: drop_update_swap)
  finally show ?thesis .
qed

lemma circ_push:
  assumes "h < length xs" "t < length xs"
    and "t' = (if Suc t = length xs then 0 else Suc t)" "t' \<noteq> h"
  shows "circ h t' (xs[t := b]) = circ h t xs @ [b]"
proof (cases "h \<le> t")
  case True
  show ?thesis
  proof (cases "Suc t = length xs")
    case False
    with True assms show ?thesis
      by (simp add: circ_def take_drop_upd_snoc)
  next
    case last: True
    have "drop h (xs[t := b]) = take (Suc t - h) (drop h (xs[t := b]))"
      using last by simp
    also have "\<dots> = take (t - h) (drop h xs) @ [b]"
      using True assms by (simp only: take_drop_upd_snoc)
    finally show ?thesis
      using True last assms by (simp add: circ_def)
  qed
next
  case False
  with assms have "Suc t < h" "Suc t \<noteq> length xs" by (auto split: if_splits)
  with False assms show ?thesis
    by (simp add: circ_def take_Suc_conv_app_nth)
qed

lemma circ_pop:
  assumes "h < length xs" "t < length xs" "h \<noteq> t"
    and "h' = (if Suc h = length xs then 0 else Suc h)"
  shows "circ h t xs = xs ! h # circ h' t xs"
proof (cases "h \<le> t")
  case True
  with assms have lt: "h < t" "Suc h \<noteq> length xs" by auto
  then have "take (t - h) (drop h xs) = xs ! h # take (t - Suc h) (drop (Suc h) xs)"
    using assms by (metis Cons_nth_drop_Suc Suc_diff_Suc take_Suc_Cons)
  with lt assms show ?thesis by (simp add: circ_def)
next
  case False
  show ?thesis
  proof (cases "Suc h = length xs")
    case True
    then have "drop h xs = [xs ! h]"
      using assms by (metis Cons_nth_drop_Suc drop_all le_refl)
    with True False assms show ?thesis by (simp add: circ_def)
  next
    case nl: False
    have "drop h xs = xs ! h # drop (Suc h) xs"
      using assms by (simp add: Cons_nth_drop_Suc)
    with nl False assms show ?thesis by (simp add: circ_def)
  qed
qed

lemma ring_push_contents:
  assumes "ring_inv r" "\<not> ring_full r"
  shows "\<exists>r'. ring_push r b = Inr r' \<and> ring_inv r' \<and> ring_contents r' = ring_contents r @ [b]"
proof -
  let ?t' = "if Suc (unat (tail r)) = length (buffer r) then 0 else Suc (unat (tail r))"
  have ne: "?t' \<noteq> unat (head r)"
    using assms
    by (auto simp: ring_inv_def ring_full_def Let_def unat_succ16 word_unat_eq_iff split: if_splits)
  have "circ (unat (head r)) ?t' ((buffer r)[unat (tail r) := b]) =
        circ (unat (head r)) (unat (tail r)) (buffer r) @ [b]"
    using assms ne by (intro circ_push) (auto simp: ring_inv_def)
  then show ?thesis
    using assms(1) by (auto simp: ring_contents_def ring_inv_def ring_push_def Let_def unat_succ16)
qed

lemma ring_pop_contents:
  assumes "ring_inv r" "\<not> ring_empty r"
  shows "\<exists>b r'. ring_pop r = Inr (b, r') \<and> ring_inv r' \<and> ring_contents r = b # ring_contents r'
           \<and> buffer r' = buffer r \<and> tail r' = tail r"
proof -
  let ?h' = "if Suc (unat (head r)) = length (buffer r) then 0 else Suc (unat (head r))"
  have ne: "unat (head r) \<noteq> unat (tail r)"
    using assms by (auto simp: ring_empty_def word_unat_eq_iff)
  have "circ (unat (head r)) (unat (tail r)) (buffer r) =
        buffer r ! unat (head r) # circ ?h' (unat (tail r)) (buffer r)"
    using assms ne by (intro circ_pop) (auto simp: ring_inv_def)
  then show ?thesis
    using assms(1) by (auto simp: ring_contents_def ring_inv_def ring_pop_def Let_def unat_succ16)
qed

lemma ring_push_all_contents:
  "ring_inv r \<Longrightarrow> length (ring_contents r) + length bytes \<le> RING_BUFFER_LENGTH - 1 \<Longrightarrow>
   \<exists>r'. ring_push_all r bytes = Inr r' \<and> ring_inv r' \<and> ring_contents r' = ring_contents r @ bytes"
proof (induction bytes arbitrary: r)
  case Nil
  then show ?case by simp
next
  case (Cons b bytes)
  from Cons.prems have "\<not> ring_full r"
    by (simp add: ring_full_contents)
  from ring_push_contents [OF Cons.prems(1) this, of b]
  obtain r1 where r1: "ring_push r b = Inr r1" "ring_inv r1" "ring_contents r1 = ring_contents r @ [b]"
    by blast
  from Cons.prems(2) r1(3) have "length (ring_contents r1) + length bytes \<le> RING_BUFFER_LENGTH - 1"
    by simp
  from Cons.IH [OF r1(2) this] r1 show ?case by simp
qed

lemma ring_pop_n_contents:
  "ring_inv r \<Longrightarrow> ring_contents r = bytes @ rest \<Longrightarrow>
   \<exists>r'. ring_pop_n (length bytes) r = Inr (bytes, r') \<and> ring_inv r' \<and> ring_contents r' = rest"
proof (induction bytes arbitrary: r)
  case Nil
  then show ?case by simp
next
  case (Cons b bytes)
  from Cons.prems have "\<not> ring_empty r"
    by (simp add: ring_empty_contents)
  from ring_pop_contents [OF Cons.prems(1) this]
  obtain b' r1 where r1: "ring_pop r = Inr (b', r1)" "ring_inv r1" "ring_contents r = b' # ring_contents r1"
    by blast
  with Cons.prems(2) have eq: "b' = b" "ring_contents r1 = bytes @ rest" by simp_all
  from Cons.IH [OF r1(2) eq(2)] r1(1) eq(1) show ?case by auto
qed

text \<open>
  Claim C10. Each of the four ring-buffer operations, applied to a buffer whose head and
  tail are below \<open>RING_BUFFER_LENGTH\<close>, completes without an access outside the storage
  array and leaves head and tail below \<open>RING_BUFFER_LENGTH\<close>; hence every sequence of
  operations on the zero-initialised buffer runs to its end inside the array, whether
  or not the callers check \<open>ring_full\<close> and \<open>ring_empty\<close> first.
\<close>

theorem ring_ops_in_bounds:
  "(ring_inv r \<longrightarrow> (\<exists>r'. ring_apply x r = Inr r' \<and> ring_inv r')) \<and>
   (\<exists>r'. ring_run xs ring_zero = Inr r' \<and>
          unat (head r') < RING_BUFFER_LENGTH \<and> unat (tail r') < RING_BUFFER_LENGTH)"
proof -
  have "\<exists>r'. ring_run xs ring_zero = Inr r' \<and> ring_inv r'"
    by (rule ring_run_inv [OF ring_inv_zero])
  then show ?thesis
    using ring_apply_inv [of r x] by (auto simp: ring_inv_def)
qed

theorem ring_ops_in_bounds_witness:
  "ring_inv ring_zero \<and> (\<exists>r'. ring_apply (Push 7) ring_zero = Inr r' \<and> ring_inv r') \<and>
   (\<exists>r'. ring_run [Push 7, Pop, Pop, Full] ring_zero = Inr r' \<and>
          unat (head r') < RING_BUFFER_LENGTH \<and> unat (tail r') < RING_BUFFER_LENGTH)"
  using ring_ops_in_bounds [of ring_zero "Push 7" "[Push 7, Pop, Pop, Full]"] ring_inv_zero
  by simp

text \<open>
  Claim C3, amended. For every non-empty sequence of at most \<open>RING_BUFFER_LENGTH - 1\<close>
  bytes pushed into an empty ring buffer, every push stays inside the array, the buffer
  then reports not-empty, as many pops as there were pushes return exactly those bytes in
  the order pushed, and the buffer then reports empty.
\<close>

theorem ring_fifo:
  assumes "ring_inv r" "ring_empty r" "bytes \<noteq> []" "length bytes \<le> RING_BUFFER_LENGTH - 1"
  shows "\<exists>r1 r2. ring_push_all r bytes = Inr r1 \<and> \<not> ring_empty r1 \<and>
           ring_pop_n (length bytes) r1 = Inr (bytes, r2) \<and> ring_empty r2"
proof -
  from assms have e: "ring_contents r = []"
    by (simp add: ring_empty_contents)
  with assms(4) have "length (ring_contents r) + length bytes \<le> RING_BUFFER_LENGTH - 1"
    by simp
  from ring_push_all_contents [OF assms(1) this] e
  obtain r1 where r1: "ring_push_all r bytes = Inr r1" "ring_inv r1" "ring_contents r1 = bytes"
    by auto
  from r1(3) have "ring_contents r1 = bytes @ []" by simp
  from ring_pop_n_contents [OF r1(2) this]
  obtain r2 where r2: "ring_pop_n (length bytes) r1 = Inr (bytes, r2)" "ring_inv r2" "ring_contents r2 = []"
    by blast
  from r1 r2 assms(3) show ?thesis
    by (auto simp: ring_empty_contents)
qed

theorem ring_fifo_witness:
  "\<exists>r1 r2. ring_push_all ring_zero [1, 2, 3] = Inr r1 \<and> \<not> ring_empty r1 \<and>
           ring_pop_n (length [1, 2, 3 :: uint8_t]) r1 = Inr ([1, 2, 3], r2) \<and> ring_empty r2"
  using ring_fifo [of ring_zero "[1, 2, 3]"] ring_inv_zero ring_empty_zero
  by (simp add: RING_BUFFER_LENGTH_def)

text \<open>
  The claim as written includes the sequence of no bytes at all, after which the buffer
  still reports empty.
\<close>

theorem ring_fifo_no_push_counterexample:
  "length ([] :: uint8_t list) \<le> RING_BUFFER_LENGTH - 1 \<and>
   ring_push_all ring_zero [] = Inr ring_zero \<and> ring_empty ring_zero"
  by (simp add: ring_empty_zero)

section \<open>Transport event handler and stream flush engine\<close>

lemma sd_checked_cases:
  "sd_checked c s =
     (if shd (sd_pending s) \<noteq> 0 then Inl Assert_failed
      else Inr (s\<lparr>sd_pending := stl (sd_pending s), sd_trace := sd_trace s @ [(c, 0)]\<rparr>))"
  by (simp add: sd_checked_def sd_def)

lemma mtu_assignment:
  "(if int MAX_MTU_LENGTH < uint (c :: uint16_t)
    then word_of_int (int MAX_MTU_LENGTH - 3)
    else word_of_int (uint c - 3)) = min 128 c - 3"
proof (cases "128 < c")
  case True
  then have "128 < uint c" by (simp add: word_less_def)
  with True show ?thesis by (auto simp: MAX_MTU_LENGTH_def min_def)
next
  case False
  then have "\<not> 128 < uint c" by (simp add: word_less_def)
  with False show ?thesis by (auto simp: MAX_MTU_LENGTH_def min_def)
qed

lemma unat_mtu_assignment:
  "unat (min 128 (c :: uint16_t) - 3) =
     (if 3 \<le> unat c then min 128 (unat c) - 3 else 65533 + unat c)"
proof -
  have m: "unat (min 128 c) = min 128 (unat c)"
    by (simp add: min_def word_le_nat_alt)
  have "unat (min 128 c - 3) = (if 3 \<le> unat (min 128 c) then unat (min 128 c) - 3 else 65536 + unat (min 128 c) - 3)"
    by (simp add: unat_sub_if_size word_le_nat_alt word_size)
  then show ?thesis
    unfolding m by (auto simp: min_def)
qed

text \<open>
  Claim C1. When the SoftDevice accepts the MTU reply, the handler of an MTU exchange
  request returns normally and stores the smaller of \<open>MAX_MTU_LENGTH\<close> (128) and the
  client's MTU, minus 3, in \<open>negotiated_mtu\<close>; a client MTU of 64 gives 61 and one of 512
  gives 125. The subtraction is that of \<open>uint16_t\<close>: for a client MTU of 3 or more the
  stored number is the difference of the numbers, below 3 it wraps around to
  \<open>65533 + client_mtu\<close>.
\<close>

theorem mtu_negotiation:
  assumes "shd (sd_pending s) = NRF_SUCCESS"
  shows "\<exists>s'. ble_evt_handler (BLE_GATTS_EVT_EXCHANGE_MTU_REQUEST conn client_mtu) s = Inr s' \<and>
           negotiated_mtu s' = min (word_of_nat MAX_MTU_LENGTH) client_mtu - 3 \<and>
           unat (negotiated_mtu s') =
             (if 3 \<le> unat client_mtu then min MAX_MTU_LENGTH (unat client_mtu) - 3
              else 65533 + unat client_mtu) \<and>
           (client_mtu = 64 \<longrightarrow> negotiated_mtu s' = 61) \<and>
           (client_mtu = 512 \<longrightarrow> negotiated_mtu s' = 125)"
proof -
  let ?m = "min 128 client_mtu - 3"
  have "unat ?m = (if 3 \<le> unat client_mtu then min 128 (unat client_mtu) - 3 else 65533 + unat client_mtu)"
    by (rule unat_mtu_assignment)
  moreover have "client_mtu = 64 \<longrightarrow> ?m = 61" by simp
  moreover have "client_mtu = 512 \<longrightarrow> ?m = 125" by simp
  ultimately show ?thesis
    using assms
    by (simp add: sd_checked_cases NRF_SUCCESS_def mtu_assignment) (simp add: MAX_MTU_LENGTH_def)
qed


theorem mtu_negotiation_witness:
  "(\<exists>s'. ble_evt_handler (BLE_GATTS_EVT_EXCHANGE_MTU_REQUEST 0 64) (ble_initial (sconst NRF_SUCCESS)) = Inr s' \<and>
          negotiated_mtu s' = 61 \<and> unat (negotiated_mtu s') = 61) \<and>
   (\<exists>s'. ble_evt_handler (BLE_GATTS_EVT_EXCHANGE_MTU_REQUEST 0 512) (ble_initial (sconst NRF_SUCCESS)) = Inr s' \<and>
          negotiated_mtu s' = 125 \<and> unat (negotiated_mtu s') = 125)"
proof -
  have h: "shd (sd_pending (ble_initial (sconst NRF_SUCCESS))) = NRF_SUCCESS"
    by (simp add: ble_initial_def)
  from mtu_negotiation [OF h, of 0 64] obtain s1 where
    "ble_evt_handler (BLE_GATTS_EVT_EXCHANGE_MTU_REQUEST 0 64) (ble_initial (sconst NRF_SUCCESS)) = Inr s1"
    "negotiated_mtu s1 = 61"
    by blast
  moreover from mtu_negotiation [OF h, of 0 512] obtain s2 where
    "ble_evt_handler (BLE_GATTS_EVT_EXCHANGE_MTU_REQUEST 0 512) (ble_initial (sconst NRF_SUCCESS)) = Inr s2"
    "negotiated_mtu s2 = 125"
    by blast
  ultimately show ?thesis by simp
qed

lemma gatts_write_loop_contents:
  "ring_inv r \<Longrightarrow>
   \<exists>r'. gatts_write_loop bytes r = Inr r' \<and> ring_inv r' \<and>
        ring_contents r' =
          ring_contents r @ take (RING_BUFFER_LENGTH - 1 - length (ring_contents r)) bytes"
proof (induction bytes arbitrary: r)
  case Nil
  then show ?case by simp
next
  case (Cons b bytes)
  show ?case
  proof (cases "ring_full r")
    case True
    with Cons.prems show ?thesis
      by (simp add: ring_full_contents)
  next
    case False
    from ring_push_contents [OF Cons.prems False, of b]
    obtain r1 where r1: "ring_push r b = Inr r1" "ring_inv r1"
      "ring_contents r1 = ring_contents r @ [b]"
      by blast
    from False Cons.prems have free: "length (ring_contents r) < RING_BUFFER_LENGTH - 1"
      using length_ring_contents_le [of r] by (simp add: ring_full_contents)
    then obtain k where k: "RING_BUFFER_LENGTH - 1 - length (ring_contents r) = Suc k"
      by (metis Suc_diff_Suc)
    with r1(3) have k1: "RING_BUFFER_LENGTH - 1 - length (ring_contents r1) = k"
      by simp
    from Cons.IH [OF r1(2)] obtain r' where
      "gatts_write_loop bytes r1 = Inr r'" "ring_inv r'"
      "ring_contents r' = ring_contents r1 @ take k bytes"
      unfolding k1 by blast
    with False r1 k show ?thesis by simp
  qed
qed

text \<open>
  Claim C7. The handler of a characteristic write returns normally, with no error value
  and no SoftDevice call; the receive ring buffer then holds what it held before followed
  by the first bytes of the payload, as many as there were free slots
  (\<open>RING_BUFFER_LENGTH - 1\<close> minus the bytes queued), in order; the rest of the payload
  is dropped and no other component of the state changes.
\<close>

theorem gatts_write_longest_prefix:
  assumes "ring_inv (rx s)"
  shows "\<exists>ring. ble_evt_handler (BLE_GATTS_EVT_WRITE conn bytes) s = Inr (s\<lparr>rx := ring\<rparr>) \<and>
           ring_inv ring \<and>
           ring_contents ring =
             ring_contents (rx s) @ take (RING_BUFFER_LENGTH - 1 - length (ring_contents (rx s))) bytes"
  using gatts_write_loop_contents [OF assms, of bytes] by auto

theorem gatts_write_longest_prefix_witness:
  "\<exists>ring.
     ble_evt_handler (BLE_GATTS_EVT_WRITE 0 [1, 2, 3])
       ((ble_initial (sconst NRF_SUCCESS))
          \<lparr>rx := \<lparr>buffer = replicate 1069 0, head = 0, tail = 1067\<rparr>\<rparr>) =
     Inr ((ble_initial (sconst NRF_SUCCESS))\<lparr>rx := ring\<rparr>) \<and>
     ring_contents ring = replicate 1067 0 @ [1]"
proof -
  let ?s = "(ble_initial (sconst NRF_SUCCESS))
          \<lparr>rx := \<lparr>buffer = replicate 1069 0, head = 0, tail = 1067\<rparr>\<rparr>"
  have inv: "ring_inv (rx ?s)"
    by (simp add: ring_inv_def RING_BUFFER_LENGTH_def)
  have c: "ring_contents (rx ?s) = replicate 1067 0"
    by (simp add: ring_contents_def circ_def)
  from gatts_write_longest_prefix [OF inv, of 0 "[1, 2, 3]"]
  show ?thesis
    unfolding c by (auto simp: RING_BUFFER_LENGTH_def simp del: ble_evt_handler.simps)
qed

lemma hvx_retry_Some:
  assumes "hvx_retry out s = Some y"
  shows "\<exists>k. fst y \<noteq> NRF_ERROR_RESOURCES \<and>
       snd y = s\<lparr>sd_pending := sdrop (Suc k) (sd_pending s),
              sd_trace := sd_trace s @
                replicate k (Sd_ble_gatts_hvx (connection s) (tx_value_handle s) out, NRF_ERROR_RESOURCES) @
                [(Sd_ble_gatts_hvx (connection s) (tx_value_handle s) out, fst y)]\<rparr>"
proof (rule hvx_retry.raw_induct [OF _ assms], goal_cases)
  case (1 rec out s y)
  let ?c = "Sd_ble_gatts_hvx (connection s) (tx_value_handle s) out"
  let ?s0 = "s\<lparr>sd_pending := stl (sd_pending s), sd_trace := sd_trace s @ [(?c, shd (sd_pending s))]\<rparr>"
  show ?case
  proof (cases "shd (sd_pending s) = NRF_ERROR_RESOURCES")
    case True
    with 1(2) have "rec out ?s0 = Some y"
      by (simp add: sd_def)
    from 1(1) [OF this] obtain k where k: "fst y \<noteq> NRF_ERROR_RESOURCES"
      "snd y = ?s0\<lparr>sd_pending := sdrop (Suc k) (sd_pending ?s0),
              sd_trace := sd_trace ?s0 @
                replicate k (Sd_ble_gatts_hvx (connection ?s0) (tx_value_handle ?s0) out, NRF_ERROR_RESOURCES) @
                [(Sd_ble_gatts_hvx (connection ?s0) (tx_value_handle ?s0) out, fst y)]\<rparr>"
      by blast
    show ?thesis
      by (rule exI [of _ "Suc k"]) (use k True in simp)
  next
    case False
    with 1(2) have "y = (shd (sd_pending s), ?s0)"
      by (simp add: sd_def)
    with False show ?thesis
      by (intro exI [of _ 0]) simp
  qed
qed

lemma hvx_retry_returns:
  "sd_pending s !! n \<noteq> NRF_ERROR_RESOURCES \<Longrightarrow> \<exists>y. hvx_retry out s = Some y"
proof (induction n arbitrary: s)
  case 0
  then show ?case
    by (subst hvx_retry.simps) (simp add: sd_def)
next
  case (Suc n)
  let ?c = "Sd_ble_gatts_hvx (connection s) (tx_value_handle s) out"
  let ?s0 = "s\<lparr>sd_pending := stl (sd_pending s), sd_trace := sd_trace s @ [(?c, shd (sd_pending s))]\<rparr>"
  from Suc.prems have "sd_pending ?s0 !! n \<noteq> NRF_ERROR_RESOURCES" by simp
  from Suc.IH [OF this] obtain y where y: "hvx_retry out ?s0 = Some y" by blast
  show ?case
  proof (cases "shd (sd_pending s) = NRF_ERROR_RESOURCES")
    case True
    have "hvx_retry out s = hvx_retry out ?s0"
      by (subst hvx_retry.simps) (simp add: sd_def True)
    with y show ?thesis by simp
  next
    case False
    then show ?thesis
      by (subst hvx_retry.simps) (simp add: sd_def)
  qed
qed


lemma flush_pop_loop_take:
  "ring_inv r \<Longrightarrow> ring_contents r = xs \<Longrightarrow>
   m = min (length xs) (max 1 (unat mtu - length out)) \<Longrightarrow>
   length out + m \<le> MAX_MTU_LENGTH \<Longrightarrow>
   \<exists>r'. flush_pop_loop r out mtu = Inr (r', out @ take m xs) \<and> ring_inv r' \<and>
        ring_contents r' = drop m xs"
proof (induction xs arbitrary: r out m)
  case Nil
  then have "ring_empty r" by (simp add: ring_empty_contents)
  with Nil show ?case by simp
next
  case (Cons x xs)
  then have ne: "\<not> ring_empty r" by (simp add: ring_empty_contents)
  from ring_pop_contents [OF Cons.prems(1) ne] Cons.prems(2)
  obtain r1 where r1: "ring_pop r = Inr (x, r1)" "ring_inv r1" "ring_contents r1 = xs"
    by auto
  from Cons.prems(3) have m1: "1 \<le> m" by simp
  with Cons.prems(4) have room: "\<not> MAX_MTU_LENGTH \<le> length out" by simp
  show ?case
  proof (cases "unat mtu \<le> length (out @ [x])")
    case True
    with Cons.prems(3) have "m = 1" by simp
    with True ne room r1 show ?thesis by simp
  next
    case False
    define m' where "m' = min (length xs) (max 1 (unat mtu - length (out @ [x])))"
    from False have "Suc (length out) < unat mtu" by simp
    with Cons.prems(3) have m: "m = Suc m'"
      unfolding m'_def length_append list.size by arith
    with Cons.prems(4) have "length (out @ [x]) + m' \<le> MAX_MTU_LENGTH" by simp
    from Cons.IH [OF r1(2,3) m'_def this]
    obtain r' where "flush_pop_loop r1 (out @ [x]) mtu = Inr (r', (out @ [x]) @ take m' xs)"
      "ring_inv r'" "ring_contents r' = drop m' xs"
      by blast
    with False ne room r1 m show ?thesis by simp
  qed
qed

lemma ble_flush_tx_step:
  assumes "ring_inv (tx s)" "ring_contents (tx s) = xs" "xs \<noteq> []"
    and "m = min (length xs) (max 1 (unat (negotiated_mtu s)))" "m \<le> MAX_MTU_LENGTH"
    and "ble_flush_tx s = Some (Inr s')"
  shows "\<exists>ring k err.
           s' = s\<lparr>tx := ring,
                  sd_pending := sdrop (Suc k) (sd_pending s),
                  sd_trace := sd_trace s @
                    replicate k (Sd_ble_gatts_hvx (connection s) (tx_value_handle s) (take m xs),
                                 NRF_ERROR_RESOURCES) @
                    [(Sd_ble_gatts_hvx (connection s) (tx_value_handle s) (take m xs), err)]\<rparr> \<and>
           ring_inv ring \<and> ring_contents ring = drop m xs \<and>
           (err = NRF_SUCCESS \<or> err = NRF_ERROR_INVALID_STATE \<or> err = BLE_ERROR_INVALID_CONN_HANDLE)"
proof -
  from assms have ne: "\<not> ring_empty (tx s)" by (simp add: ring_empty_contents)
  from flush_pop_loop_take [OF assms(1,2), of m "negotiated_mtu s" "[]"] assms(4,5)
  obtain ring where ring: "flush_pop_loop (tx s) [] (negotiated_mtu s) = Inr (ring, take m xs)"
    "ring_inv ring" "ring_contents ring = drop m xs"
    by auto
  from assms(6) ne ring(1) obtain y where y: "hvx_retry (take m xs) (s\<lparr>tx := ring\<rparr>) = Some y"
    by (auto simp: ble_flush_tx_def split: option.splits)
  from hvx_retry_Some [OF y] obtain k where k: "fst y \<noteq> NRF_ERROR_RESOURCES"
    "snd y = s\<lparr>tx := ring,
               sd_pending := sdrop (Suc k) (sd_pending s),
               sd_trace := sd_trace s @
                 replicate k (Sd_ble_gatts_hvx (connection s) (tx_value_handle s) (take m xs),
                              NRF_ERROR_RESOURCES) @
                 [(Sd_ble_gatts_hvx (connection s) (tx_value_handle s) (take m xs), fst y)]\<rparr>"
    by auto
  from assms(6) ne ring(1) y have "s' = snd y"
    "fst y = NRF_SUCCESS \<or> fst y = NRF_ERROR_INVALID_STATE \<or> fst y = BLE_ERROR_INVALID_CONN_HANDLE"
    by (auto simp: ble_flush_tx_def NRF_SUCCESS_def split: if_splits prod.splits)
  with k ring show ?thesis by blast
qed

text \<open>
  Claim C6. When the transmit ring buffer is empty, \<^verbatim>\<open>ble_flush_tx\<close> returns at once
  with the state it was given: no SoftDevice call is added to the trace, and both ring
  buffers, the connection handle and \<open>negotiated_mtu\<close> are unchanged.
\<close>

theorem flush_empty_noop:
  "ring_empty (tx s) \<Longrightarrow> ble_flush_tx s = Some (Inr s)"
  by (simp add: ble_flush_tx_def)

theorem flush_empty_noop_witness:
  "ble_flush_tx (ble_initial (sconst NRF_SUCCESS)) = Some (Inr (ble_initial (sconst NRF_SUCCESS)))"
  using flush_empty_noop [of "ble_initial (sconst NRF_SUCCESS)"]
  by (simp add: ble_initial_def ring_empty_zero)


lemma hvx_frames_append: "hvx_frames (cs @ ds) = hvx_frames cs @ hvx_frames ds"
  by (induction cs rule: hvx_frames.induct) simp_all

lemma hvx_frames_retries:
  "hvx_frames (replicate k (Sd_ble_gatts_hvx conn handle bytes, NRF_ERROR_RESOURCES)) = []"
  by (induction k) simp_all

lemma ble_flush_tx_frame:
  assumes "ring_inv (tx s)" "ring_contents (tx s) = xs" "xs \<noteq> []"
    and "n = min (length xs) (max 1 (unat (negotiated_mtu s)))" "n \<le> MAX_MTU_LENGTH"
    and "ble_flush_tx s = Some (Inr s')"
  shows "\<exists>e. hvx_frames (sd_trace s') = hvx_frames (sd_trace s) @ [(take n xs, e)] \<and>
             ring_inv (tx s') \<and> ring_contents (tx s') = drop n xs \<and>
             negotiated_mtu s' = negotiated_mtu s \<and> rx s' = rx s \<and> connection s' = connection s"
proof -
  from ble_flush_tx_step [OF assms]
  obtain ring k err where *:
    "s' = s\<lparr>tx := ring,
           sd_pending := sdrop (Suc k) (sd_pending s),
           sd_trace := sd_trace s @
             replicate k (Sd_ble_gatts_hvx (connection s) (tx_value_handle s) (take n xs),
                          NRF_ERROR_RESOURCES) @
             [(Sd_ble_gatts_hvx (connection s) (tx_value_handle s) (take n xs), err)]\<rparr>"
    "ring_inv ring" "ring_contents ring = drop n xs"
    "err = NRF_SUCCESS \<or> err = NRF_ERROR_INVALID_STATE \<or> err = BLE_ERROR_INVALID_CONN_HANDLE"
    by blast
  from *(4) have "err \<noteq> NRF_ERROR_RESOURCES"
    by (auto simp: NRF_SUCCESS_def NRF_ERROR_INVALID_STATE_def BLE_ERROR_INVALID_CONN_HANDLE_def
        NRF_ERROR_RESOURCES_def)
  with * show ?thesis
    by (simp add: hvx_frames_append hvx_frames_retries)
qed

lemma flush_calls_Suc_Inr:
  "flush_calls (Suc n) s = Some (Inr s') \<longleftrightarrow>
     (\<exists>s1. ble_flush_tx s = Some (Inr s1) \<and> flush_calls n s1 = Some (Inr s'))"
  by (auto split: option.splits sum.splits)

lemma flush_three_calls_aux:
  assumes "ring_inv (tx s)" "ring_contents (tx s) = bytes" "m = unat (negotiated_mtu s)"
    and "5 \<le> m" "m \<le> MAX_MTU_LENGTH" "length bytes = m * 2 + 5"
    and "flush_calls 3 s = Some (Inr s3)"
  shows "\<exists>s1 s2 e1 e2 e3.
           flush_calls 1 s = Some (Inr s1) \<and> flush_calls 2 s = Some (Inr s2) \<and>
           \<not> ring_empty (tx s1) \<and> \<not> ring_empty (tx s2) \<and> ring_empty (tx s3) \<and>
           hvx_frames (sd_trace s3) =
             hvx_frames (sd_trace s) @
               [(take m bytes, e1), (take m (drop m bytes), e2), (drop (2 * m) bytes, e3)]"
proof -
  from assms(7) obtain s1 s2 where calls:
    "ble_flush_tx s = Some (Inr s1)" "ble_flush_tx s1 = Some (Inr s2)" "ble_flush_tx s2 = Some (Inr s3)"
    by (auto simp: numeral_3_eq_3 flush_calls_Suc_Inr simp del: flush_calls.simps(2))
  have n1: "m = min (length bytes) (max 1 (unat (negotiated_mtu s)))"
    using assms by simp
  have ne1: "bytes \<noteq> []" using assms by auto
  from ble_flush_tx_frame [OF assms(1,2) ne1 n1 assms(5) calls(1)]
  obtain e1 where s1: "hvx_frames (sd_trace s1) = hvx_frames (sd_trace s) @ [(take m bytes, e1)]"
    "ring_inv (tx s1)" "ring_contents (tx s1) = drop m bytes" "negotiated_mtu s1 = negotiated_mtu s"
    by blast
  have n2: "m = min (length (drop m bytes)) (max 1 (unat (negotiated_mtu s1)))"
    using assms s1(4) by simp
  have ne2: "drop m bytes \<noteq> []" using assms by auto
  from ble_flush_tx_frame [OF s1(2,3) ne2 n2 assms(5) calls(2)]
  obtain e2 where s2: "hvx_frames (sd_trace s2) = hvx_frames (sd_trace s1) @ [(take m (drop m bytes), e2)]"
    "ring_inv (tx s2)" "ring_contents (tx s2) = drop m (drop m bytes)" "negotiated_mtu s2 = negotiated_mtu s1"
    by blast
  have n3: "5 = min (length (drop m (drop m bytes))) (max 1 (unat (negotiated_mtu s2)))"
    using assms s1(4) s2(4) by simp
  have ne3: "drop m (drop m bytes) \<noteq> []" using assms by auto
  have five: "5 \<le> MAX_MTU_LENGTH" by (simp add: MAX_MTU_LENGTH_def)
  from ble_flush_tx_frame [OF s2(2,3) ne3 n3 five calls(3)]
  obtain e3 where s3: "hvx_frames (sd_trace s3) = hvx_frames (sd_trace s2) @ [(take 5 (drop m (drop m bytes)), e3)]"
    "ring_inv (tx s3)" "ring_contents (tx s3) = drop 5 (drop m (drop m bytes))"
    by blast
  have last: "take 5 (drop m (drop m bytes)) = drop (2 * m) bytes"
    using assms(6) by (simp add: mult_2)
  have "ring_contents (tx s3) = []"
    using s3(3) assms(6) by simp
  with s3(2) have "ring_empty (tx s3)" by (simp add: ring_empty_contents)
  moreover have "\<not> ring_empty (tx s1)" using s1(2,3) ne2 by (simp add: ring_empty_contents)
  moreover have "\<not> ring_empty (tx s2)" using s2(2,3) ne3 by (simp add: ring_empty_contents)
  moreover have "flush_calls 2 s = Some (Inr s2)"
    using calls(1,2) by (simp add: numeral_2_eq_2)
  moreover have "flush_calls 1 s = Some (Inr s1)"
    using calls(1) by simp
  ultimately show ?thesis
    using s1(1) s2(1) s3(1) last by simp
qed

lemma ble_flush_tx_returns:
  assumes "sd_pending s !! n \<noteq> NRF_ERROR_RESOURCES"
  shows "\<exists>y. ble_flush_tx s = Some y"
proof (cases "ring_empty (tx s)")
  case True
  then show ?thesis by (simp add: ble_flush_tx_def)
next
  case False
  show ?thesis
  proof (cases "flush_pop_loop (tx s) [] (negotiated_mtu s)")
    case (Inl e)
    with False show ?thesis by (simp add: ble_flush_tx_def)
  next
    case (Inr p)
    obtain ring out where p: "p = (ring, out)" by (cases p)
    have "sd_pending (s\<lparr>tx := ring\<rparr>) !! n \<noteq> NRF_ERROR_RESOURCES"
      using assms by simp
    from hvx_retry_returns [OF this, of out]
    obtain err s' where "hvx_retry out (s\<lparr>tx := ring\<rparr>) = Some (err, s')"
      by auto
    with False Inr p show ?thesis by (simp add: ble_flush_tx_def)
  qed
qed

lemma hvx_retry_accept:
  "shd (sd_pending s) \<noteq> NRF_ERROR_RESOURCES \<Longrightarrow>
   hvx_retry out s = Some (sd (Sd_ble_gatts_hvx (connection s) (tx_value_handle s) out) s)"
  by (subst hvx_retry.simps) (simp add: sd_def)

lemma flush_calls_numeral:
  "flush_calls (numeral k) s =
     (case ble_flush_tx s of
        None \<Rightarrow> None
      | Some (Inl e) \<Rightarrow> Some (Inl e)
      | Some (Inr s') \<Rightarrow> flush_calls (pred_numeral k) s')"
  by (simp add: numeral_eq_Suc)

lemmas flush_eval =
  flush_calls_numeral ble_flush_tx_def ble_initial_def ring_empty_def ring_pop_def
  RING_BUFFER_LENGTH_def MAX_MTU_LENGTH_def hvx_retry_accept sd_def NRF_SUCCESS_def
  NRF_ERROR_RESOURCES_def NRF_ERROR_INVALID_STATE_def BLE_ERROR_INVALID_CONN_HANDLE_def
  nth_append ring_contents_def circ_def ring_inv_def

text \<open>
  Claim C5, amended. A returning call to \<^verbatim>\<open>ble_flush_tx\<close> on a non-empty transmit buffer
  pops \<open>n\<close> bytes, the smaller of the number queued and \<open>max 1 negotiated_mtu\<close> (the
  loop pops a byte before it tests the length), and hands them to the SoftDevice as one
  frame, provided \<open>n\<close> does not exceed the 128 bytes of the frame buffer. Hence with
  \<open>5 \<le> negotiated_mtu \<le> 128\<close> and exactly \<open>negotiated_mtu * 2 + 5\<close> bytes queued, the
  buffer is still not empty after one and after two calls and is empty after the third;
  the three frames are the first \<open>negotiated_mtu\<close> bytes, the next \<open>negotiated_mtu\<close>
  bytes and the last 5.
\<close>

theorem flush_frames:
  assumes "ring_inv (tx s)" "ring_contents (tx s) = bytes" "m = unat (negotiated_mtu s)"
  shows "(bytes \<noteq> [] \<and> n = min (length bytes) (max 1 m) \<and> n \<le> MAX_MTU_LENGTH \<and>
          ble_flush_tx s = Some (Inr s') \<longrightarrow>
            (\<exists>e. hvx_frames (sd_trace s') = hvx_frames (sd_trace s) @ [(take n bytes, e)] \<and>
                 ring_inv (tx s') \<and> ring_contents (tx s') = drop n bytes)) \<and>
         (5 \<le> m \<and> m \<le> MAX_MTU_LENGTH \<and> length bytes = m * 2 + 5 \<and>
          flush_calls 3 s = Some (Inr s3) \<longrightarrow>
            (\<exists>s1 s2 e1 e2 e3.
               flush_calls 1 s = Some (Inr s1) \<and> flush_calls 2 s = Some (Inr s2) \<and>
               \<not> ring_empty (tx s1) \<and> \<not> ring_empty (tx s2) \<and> ring_empty (tx s3) \<and>
               hvx_frames (sd_trace s3) =
                 hvx_frames (sd_trace s) @
                   [(take m bytes, e1), (take m (drop m bytes), e2), (drop (2 * m) bytes, e3)] \<and>
               length (drop (2 * m) bytes) = 5))"
proof (intro conjI impI)
  assume "bytes \<noteq> [] \<and> n = min (length bytes) (max 1 m) \<and> n \<le> MAX_MTU_LENGTH \<and>
          ble_flush_tx s = Some (Inr s')"
  then have h: "bytes \<noteq> []" "n = min (length bytes) (max 1 (unat (negotiated_mtu s)))"
    "n \<le> MAX_MTU_LENGTH" "ble_flush_tx s = Some (Inr s')"
    using assms(3) by simp_all
  from ble_flush_tx_frame [OF assms(1,2) h]
  show "\<exists>e. hvx_frames (sd_trace s') = hvx_frames (sd_trace s) @ [(take n bytes, e)] \<and>
            ring_inv (tx s') \<and> ring_contents (tx s') = drop n bytes"
    by blast
next
  assume "5 \<le> m \<and> m \<le> MAX_MTU_LENGTH \<and> length bytes = m * 2 + 5 \<and>
          flush_calls 3 s = Some (Inr s3)"
  then have h: "5 \<le> m" "m \<le> MAX_MTU_LENGTH" "length bytes = m * 2 + 5"
    "flush_calls 3 s = Some (Inr s3)"
    by simp_all
  from flush_three_calls_aux [OF assms h] h(3)
  show "\<exists>s1 s2 e1 e2 e3.
               flush_calls 1 s = Some (Inr s1) \<and> flush_calls 2 s = Some (Inr s2) \<and>
               \<not> ring_empty (tx s1) \<and> \<not> ring_empty (tx s2) \<and> ring_empty (tx s3) \<and>
               hvx_frames (sd_trace s3) =
                 hvx_frames (sd_trace s) @
                   [(take m bytes, e1), (take m (drop m bytes), e2), (drop (2 * m) bytes, e3)] \<and>
               length (drop (2 * m) bytes) = 5"
    by auto
qed

theorem flush_frames_witness:
  "\<exists>s' s1 s2 s3 e e1 e2 e3.
     ble_flush_tx
       ((ble_initial (sconst NRF_SUCCESS))
          \<lparr>tx := \<lparr>buffer = [1, 2, 3, 4, 5, 6, 7, 8, 9, 10, 11, 12, 13, 14, 15] @ replicate 1054 0,
                  head = 0, tail = 15\<rparr>,
           negotiated_mtu := 5\<rparr>) = Some (Inr s') \<and>
     hvx_frames (sd_trace s') = [([1, 2, 3, 4, 5], e)] \<and>
     ring_contents (tx s') = [6, 7, 8, 9, 10, 11, 12, 13, 14, 15] \<and>
     flush_calls 1
       ((ble_initial (sconst NRF_SUCCESS))
          \<lparr>tx := \<lparr>buffer = [1, 2, 3, 4, 5, 6, 7, 8, 9, 10, 11, 12, 13, 14, 15] @ replicate 1054 0,
                  head = 0, tail = 15\<rparr>,
           negotiated_mtu := 5\<rparr>) = Some (Inr s1) \<and>
     flush_calls 2
       ((ble_initial (sconst NRF_SUCCESS))
          \<lparr>tx := \<lparr>buffer = [1, 2, 3, 4, 5, 6, 7, 8, 9, 10, 11, 12, 13, 14, 15] @ replicate 1054 0,
                  head = 0, tail = 15\<rparr>,
           negotiated_mtu := 5\<rparr>) = Some (Inr s2) \<and>
     flush_calls 3
       ((ble_initial (sconst NRF_SUCCESS))
          \<lparr>tx := \<lparr>buffer = [1, 2, 3, 4, 5, 6, 7, 8, 9, 10, 11, 12, 13, 14, 15] @ replicate 1054 0,
                  head = 0, tail = 15\<rparr>,
           negotiated_mtu := 5\<rparr>) = Some (Inr s3) \<and>
     \<not> ring_empty (tx s1) \<and> \<not> ring_empty (tx s2) \<and> ring_empty (tx s3) \<and>
     hvx_frames (sd_trace s3) =
       [([1, 2, 3, 4, 5], e1), ([6, 7, 8, 9, 10], e2), ([11, 12, 13, 14, 15], e3)]"
proof -
  let ?bytes = "[1, 2, 3, 4, 5, 6, 7, 8, 9, 10, 11, 12, 13, 14, 15] :: uint8_t list"
  let ?s = "(ble_initial (sconst NRF_SUCCESS))
          \<lparr>tx := \<lparr>buffer = ?bytes @ replicate 1054 0, head = 0, tail = 15\<rparr>,
           negotiated_mtu := 5\<rparr>"
  have inv: "ring_inv (tx ?s)" by (simp add: flush_eval)
  have bytes: "ring_contents (tx ?s) = ?bytes" by (simp add: flush_eval)
  have m: "5 = unat (negotiated_mtu ?s)" by simp
  obtain s' where s': "ble_flush_tx ?s = Some (Inr s')" by (simp add: flush_eval)
  obtain s3 where s3: "flush_calls 3 ?s = Some (Inr s3)" by (simp add: flush_eval)
  have one: "?bytes \<noteq> [] \<and> 5 = min (length ?bytes) (max 1 5) \<and> 5 \<le> MAX_MTU_LENGTH \<and>
          ble_flush_tx ?s = Some (Inr s')"
    using s' by (simp add: MAX_MTU_LENGTH_def)
  have three: "(5::nat) \<le> 5 \<and> 5 \<le> MAX_MTU_LENGTH \<and> length ?bytes = 5 * 2 + 5 \<and>
          flush_calls 3 ?s = Some (Inr s3)"
    using s3 by (simp add: MAX_MTU_LENGTH_def)
  from flush_frames [OF inv bytes m, of 5 s' s3] one three s' s3
  show ?thesis
    by (simp add: ble_initial_def)
qed

text \<open>
  With \<open>negotiated_mtu = 1\<close> and \<open>1 * 2 + 5 = 7\<close> bytes queued, three calls leave four
  bytes in the buffer; with \<open>negotiated_mtu = 0\<close> a call sends a frame of one byte.
\<close>

theorem flush_frames_counterexample:
  "1 \<le> unat (negotiated_mtu
       ((ble_initial (sconst NRF_SUCCESS))
          \<lparr>tx := \<lparr>buffer = [1, 2, 3, 4, 5, 6, 7] @ replicate 1062 0, head = 0, tail = 7\<rparr>,
           negotiated_mtu := 1\<rparr>)) \<and>
   ring_contents (tx
       ((ble_initial (sconst NRF_SUCCESS))
          \<lparr>tx := \<lparr>buffer = [1, 2, 3, 4, 5, 6, 7] @ replicate 1062 0, head = 0, tail = 7\<rparr>,
           negotiated_mtu := 1\<rparr>)) = [1, 2, 3, 4, 5, 6, 7] \<and>
   map_option (map_sum id (ring_contents \<circ> tx))
     (flush_calls 3
       ((ble_initial (sconst NRF_SUCCESS))
          \<lparr>tx := \<lparr>buffer = [1, 2, 3, 4, 5, 6, 7] @ replicate 1062 0, head = 0, tail = 7\<rparr>,
           negotiated_mtu := 1\<rparr>)) = Some (Inr [4, 5, 6, 7]) \<and>
   map_option (map_sum id (hvx_frames \<circ> sd_trace))
     (ble_flush_tx
       ((ble_initial (sconst NRF_SUCCESS))
          \<lparr>tx := \<lparr>buffer = [1, 2, 3, 4, 5, 6, 7] @ replicate 1062 0, head = 0, tail = 7\<rparr>,
           negotiated_mtu := 0\<rparr>)) = Some (Inr [([1], NRF_SUCCESS)])"
  by (simp add: flush_eval)




lemma sd_checked_mtu: "sd_checked c s = Inr s' \<Longrightarrow> negotiated_mtu s' = negotiated_mtu s"
  by (auto simp: sd_checked_def sd_def split: if_splits)

lemma sd_checked_all_mtu: "sd_checked_all cs s = Inr s' \<Longrightarrow> negotiated_mtu s' = negotiated_mtu s"
proof (induction cs arbitrary: s)
  case Nil
  then show ?case by simp
next
  case (Cons c cs)
  then obtain s1 where "sd_checked c s = Inr s1" "sd_checked_all cs s1 = Inr s'"
    by (auto split: sum.splits)
  with Cons.IH [of s1] show ?case by (simp add: sd_checked_mtu)
qed

lemma ble_add_service_tx_rx_mtu:
  "ble_add_service_tx_rx a v s = Inr s' \<Longrightarrow> negotiated_mtu s' = negotiated_mtu s"
  unfolding ble_add_service_tx_rx_def
  by (auto split: sum.splits prod.splits dest!: sd_checked_mtu sd_checked_all_mtu simp: sd_def)

lemma ble_init_mtu:
  "ble_init a v s = Inr s' \<Longrightarrow> negotiated_mtu s' = negotiated_mtu s"
  unfolding ble_init_def
  by (auto split: sum.splits dest!: sd_checked_mtu sd_checked_all_mtu ble_add_service_tx_rx_mtu)

lemma ble_evt_handler_mtu:
  assumes "ble_evt_handler evt s = Inr s'" "\<forall>conn c. evt \<noteq> BLE_GATTS_EVT_EXCHANGE_MTU_REQUEST conn c"
  shows "negotiated_mtu s' = negotiated_mtu s"
  using assms
  by (cases evt) (auto split: sum.splits dest!: sd_checked_mtu)

lemma SWI2_IRQHandler_mtu:
  "SWI2_IRQHandler evts s = Inr s' \<Longrightarrow>
   \<forall>evt\<in>set evts. \<forall>conn c. evt \<noteq> BLE_GATTS_EVT_EXCHANGE_MTU_REQUEST conn c \<Longrightarrow>
   negotiated_mtu s' = negotiated_mtu s"
proof (induction evts arbitrary: s)
  case Nil
  then show ?case by simp
next
  case (Cons evt evts)
  from Cons.prems(1) obtain s1 where s1: "ble_evt_handler evt s = Inr s1"
    "SWI2_IRQHandler evts s1 = Inr s'"
    by (auto split: sum.splits)
  from Cons.prems(2) have "\<forall>conn c. evt \<noteq> BLE_GATTS_EVT_EXCHANGE_MTU_REQUEST conn c"
    "\<forall>evt\<in>set evts. \<forall>conn c. evt \<noteq> BLE_GATTS_EVT_EXCHANGE_MTU_REQUEST conn c"
    by simp_all
  with ble_evt_handler_mtu [OF s1(1)] Cons.IH [OF s1(2)] show ?case by simp
qed

text \<open>
  Claim C4, amended. Before any MTU exchange \<open>negotiated_mtu\<close> is 0, not a default of
  20 or 23: it is 0 after \<^verbatim>\<open>ble_init\<close>, and no run of the event handler without an MTU exchange
  request changes it, so a new connection starts with the value the previous one left. With the
  value 0, a returning call to \<^verbatim>\<open>ble_flush_tx\<close> on a non-empty transmit buffer sends a
  frame of exactly one byte.
\<close>

theorem mtu_before_negotiation:
  "(ble_init adv_handle value_handle (ble_initial radio) = Inr s0 \<longrightarrow> negotiated_mtu s0 = 0) \<and>
   (SWI2_IRQHandler evts s = Inr s' \<and>
    (\<forall>evt\<in>set evts. \<forall>conn c. evt \<noteq> BLE_GATTS_EVT_EXCHANGE_MTU_REQUEST conn c) \<longrightarrow>
      negotiated_mtu s' = negotiated_mtu s) \<and>
   (negotiated_mtu s = 0 \<and> ring_inv (tx s) \<and> ring_contents (tx s) = byte # bytes \<and>
    ble_flush_tx s = Some (Inr t) \<longrightarrow>
      (\<exists>e. hvx_frames (sd_trace t) = hvx_frames (sd_trace s) @ [([byte], e)] \<and>
           ring_contents (tx t) = bytes \<and> negotiated_mtu t = 0))"
proof (intro conjI impI)
  assume "ble_init adv_handle value_handle (ble_initial radio) = Inr s0"
  from ble_init_mtu [OF this] show "negotiated_mtu s0 = 0"
    by (simp add: ble_initial_def)
next
  assume "SWI2_IRQHandler evts s = Inr s' \<and>
    (\<forall>evt\<in>set evts. \<forall>conn c. evt \<noteq> BLE_GATTS_EVT_EXCHANGE_MTU_REQUEST conn c)"
  then show "negotiated_mtu s' = negotiated_mtu s"
    using SWI2_IRQHandler_mtu by blast
next
  assume a: "negotiated_mtu s = 0 \<and> ring_inv (tx s) \<and> ring_contents (tx s) = byte # bytes \<and>
    ble_flush_tx s = Some (Inr t)"
  then have n: "1 = min (length (byte # bytes)) (max 1 (unat (negotiated_mtu s)))"
    by simp
  have "(1::nat) \<le> MAX_MTU_LENGTH" by (simp add: MAX_MTU_LENGTH_def)
  from ble_flush_tx_frame [OF _ _ _ n this, of t] a
  show "\<exists>e. hvx_frames (sd_trace t) = hvx_frames (sd_trace s) @ [([byte], e)] \<and>
           ring_contents (tx t) = bytes \<and> negotiated_mtu t = 0"
    by auto
qed

lemmas init_eval =
  ble_init_def ble_add_service_tx_rx_def sd_checked_def sd_def ble_initial_def NRF_SUCCESS_def

lemmas handler_eval = sd_checked_def sd_def ble_initial_def NRF_SUCCESS_def MAX_MTU_LENGTH_def

theorem mtu_before_negotiation_witness:
  "\<exists>s0 s1 s2.
     ble_init 0 16 (ble_initial (sconst NRF_SUCCESS)) = Inr s0 \<and> negotiated_mtu s0 = 0 \<and>
     SWI2_IRQHandler [BLE_GAP_EVT_CONNECTED 0, BLE_GAP_EVT_DISCONNECTED 0, BLE_GAP_EVT_CONNECTED 1] s0
       = Inr s1 \<and>
     negotiated_mtu s1 = 0 \<and>
     ble_flush_tx
       ((ble_initial (sconst NRF_SUCCESS))
          \<lparr>tx := \<lparr>buffer = [1, 2, 3] @ replicate 1066 0, head = 0, tail = 3\<rparr>\<rparr>) = Some (Inr s2) \<and>
     hvx_frames (sd_trace s2) = [([1], NRF_SUCCESS)] \<and> ring_contents (tx s2) = [2, 3]"
proof -
  let ?s = "(ble_initial (sconst NRF_SUCCESS))
          \<lparr>tx := \<lparr>buffer = [1, 2, 3] @ replicate 1066 0, head = 0, tail = 3\<rparr>\<rparr>"
  let ?evts = "[BLE_GAP_EVT_CONNECTED 0, BLE_GAP_EVT_DISCONNECTED 0, BLE_GAP_EVT_CONNECTED 1]"
  obtain s0 where s0: "ble_init 0 16 (ble_initial (sconst NRF_SUCCESS)) = Inr s0"
    by (simp add: init_eval)
  obtain s1 where s1: "SWI2_IRQHandler ?evts s0 = Inr s1"
    using s0 by (auto simp: init_eval)
  have nm: "\<forall>evt\<in>set ?evts. \<forall>conn c. evt \<noteq> BLE_GATTS_EVT_EXCHANGE_MTU_REQUEST conn c"
    by simp
  obtain s2 where s2: "ble_flush_tx ?s = Some (Inr s2)" "hvx_frames (sd_trace s2) = [([1], NRF_SUCCESS)]"
    by (simp add: flush_eval)
  have pre: "negotiated_mtu ?s = 0 \<and> ring_inv (tx ?s) \<and> ring_contents (tx ?s) = 1 # [2, 3] \<and>
    ble_flush_tx ?s = Some (Inr s2)"
    using s2 by (simp add: flush_eval)
  have A: "negotiated_mtu s0 = 0"
    using mtu_before_negotiation [of 0 16 "sconst NRF_SUCCESS" s0, THEN conjunct1] s0
    by blast
  have B: "negotiated_mtu s1 = negotiated_mtu s0"
    using mtu_before_negotiation [of _ _ _ _ ?evts s0 s1,
        THEN conjunct2, THEN conjunct1] s1 nm
    by blast
  have C: "\<exists>e. hvx_frames (sd_trace s2) = hvx_frames (sd_trace ?s) @ [([1], e)] \<and>
           ring_contents (tx s2) = [2, 3] \<and> negotiated_mtu s2 = 0"
    using mtu_before_negotiation [of _ _ _ _ _ ?s _ 1 "[2, 3]" s2,
        THEN conjunct2, THEN conjunct2] pre
    by blast
  from A B C s0 s1 s2 show ?thesis
    by (intro exI [of _ s0] exI [of _ s1] exI [of _ s2]) (simp del: SWI2_IRQHandler.simps)
qed

text \<open>
  In the state the initialisers give, with 20 bytes queued, the frame sent is one byte
  long, not 20; on a connection that follows one which negotiated 125, the value is
  still 125.
\<close>

theorem mtu_before_negotiation_counterexample:
  "negotiated_mtu (ble_initial (sconst NRF_SUCCESS)) = 0 \<and>
   map_sum id negotiated_mtu (ble_init 0 16 (ble_initial (sconst NRF_SUCCESS))) = Inr 0 \<and>
   map_option (map_sum id (hvx_frames \<circ> sd_trace))
     (ble_flush_tx
       ((ble_initial (sconst NRF_SUCCESS))
          \<lparr>tx := \<lparr>buffer = [1, 2, 3, 4, 5, 6, 7, 8, 9, 10, 11, 12, 13, 14, 15, 16, 17, 18, 19, 20]
                            @ replicate 1049 0,
                  head = 0, tail = 20\<rparr>\<rparr>)) = Some (Inr [([1], NRF_SUCCESS)]) \<and>
   map_sum id negotiated_mtu
     (SWI2_IRQHandler
        [BLE_GAP_EVT_CONNECTED 0, BLE_GATTS_EVT_EXCHANGE_MTU_REQUEST 0 512,
         BLE_GAP_EVT_DISCONNECTED 0, BLE_GAP_EVT_CONNECTED 1]
        (ble_initial (sconst NRF_SUCCESS))) = Inr 125"
  by (simp add: flush_eval init_eval)

text \<open>
  The frame buffer has \<open>MAX_MTU_LENGTH\<close> bytes. A client MTU below 3 makes
  \<open>negotiated_mtu\<close> wrap around, and a flush with more than 128 bytes queued then
  stores beyond the end of \<^verbatim>\<open>out_buffer\<close>.
\<close>

lemma flush_frame_buffer_overflow:
  "map_sum id negotiated_mtu
     (ble_evt_handler (BLE_GATTS_EVT_EXCHANGE_MTU_REQUEST 0 2) (ble_initial (sconst NRF_SUCCESS)))
     = Inr 65535 \<and>
   ble_flush_tx
     ((ble_initial (sconst NRF_SUCCESS))
        \<lparr>tx := \<lparr>buffer = replicate 1069 0, head = 0, tail = 129\<rparr>, negotiated_mtu := 65535\<rparr>)
     = Some (Inl Out_of_bounds)"
  by (simp add: flush_eval handler_eval)

section \<open>Battery estimator\<close>

lemma curve_nth:
  "battery_discharge_curve ! 0 = 3.80" "battery_discharge_curve ! 1 = 3.45"
  "battery_discharge_curve ! 2 = 3.18" "battery_discharge_curve ! 3 = 3.12"
  "battery_discharge_curve ! 4 = 3.10" "battery_discharge_curve ! 5 = 3.07"
  "battery_discharge_curve ! 6 = 3.02" "battery_discharge_curve ! 7 = 2.97"
  "battery_discharge_curve ! 8 = 2.89" "battery_discharge_curve ! 9 = 2.79"
  "battery_discharge_curve ! 10 = 2.70" "battery_discharge_curve ! Suc 0 = 3.45"
  by (simp_all add: battery_discharge_curve_def)

lemma curve_length: "length battery_discharge_curve = 11"
  by (simp add: battery_discharge_curve_def)

declare battery_search.simps [simp del]

lemma battery_search_step:
  "i < 11 \<Longrightarrow> j = i + 1 \<Longrightarrow>
   battery_search i (Finite v) =
     (if battery_discharge_curve ! i < v then
        (if i = 0 then Inl Out_of_bounds
         else
           (let v0 = battery_discharge_curve ! i;
                v1 = battery_discharge_curve ! (i - 1);
                p0 = real ((10 - i) * 10)
            in if v1 - v0 = 0 then Inl Not_representable
               else to_uint8 (c_round (p0 + 10 * (v - v0) / (v1 - v0)))))
      else battery_search j (Finite v))"
  by (subst battery_search.simps) (simp add: curve_length float_lt_def)

lemma battery_search_end: "battery_search 11 voltage = Inr 0"
  by (subst battery_search.simps) (simp add: curve_length)

lemmas battery_search_unfold =
  battery_search_step [of 0 "Suc 0"] battery_search_step [of "Suc 0" 2] battery_search_step [of 2 3]
  battery_search_step [of 3 4] battery_search_step [of 4 5] battery_search_step [of 5 6]
  battery_search_step [of 6 7] battery_search_step [of 7 8] battery_search_step [of 8 9]
  battery_search_step [of 9 10] battery_search_step [of 10 11] battery_search_end

lemmas battery_eval =
  battery_voltage_to_percent_def battery_search_unfold curve_nth curve_length
  c_round_def to_uint8_def float_lt_def

lemma curve_ge: "i < 11 \<Longrightarrow> 2.70 \<le> battery_discharge_curve ! i"
proof -
  have "\<forall>i<11. 2.70 \<le> battery_discharge_curve ! i"
    unfolding battery_discharge_curve_def by (simp add: All_less_Suc numeral_eq_Suc)
  then show "i < 11 \<Longrightarrow> 2.70 \<le> battery_discharge_curve ! i" by simp
qed

lemma battery_search_none_below:
  "\<forall>j<11. \<not> float_lt (battery_discharge_curve ! j) voltage \<Longrightarrow>
   battery_search i voltage = Inr 0"
proof (induction i voltage rule: battery_search.induct)
  case (1 i voltage)
  show ?case
  proof (cases "i < length battery_discharge_curve")
    case True
    then have "\<not> float_lt (battery_discharge_curve ! i) voltage"
      using 1(2) by (simp add: curve_length)
    with True 1 show ?thesis by (subst battery_search.simps) simp
  next
    case False
    then show ?thesis by (subst battery_search.simps) simp
  qed
qed

lemma battery_search_low:
  assumes "v \<le> 2.70"
  shows "battery_search i (Finite v) = Inr 0"
proof (rule battery_search_none_below, intro allI impI)
  fix j :: nat
  assume "j < 11"
  from curve_ge [OF this] assms show "\<not> float_lt (battery_discharge_curve ! j) (Finite v)"
    by (simp add: float_lt_def)
qed

text \<open>
  Claim C2, amended. A voltage of 3.80 maps to 100 percent and every voltage of 2.70 or
  below to 0 percent. The voltage 3.045, halfway between the calibration points 3.02 and
  3.07, maps to 45 percent: these are the points of 40 and 50 percent (indices 6 and 5).
  It is 3.085, halfway between 3.07 and 3.10, that maps to 55 percent.
\<close>

theorem battery_interpolation_points:
  "battery_voltage_to_percent (Finite 3.80) = Inr 100 \<and>
   (v \<le> 2.70 \<longrightarrow> battery_voltage_to_percent (Finite v) = Inr 0) \<and>
   battery_voltage_to_percent (Finite 3.045) = Inr 45 \<and>
   battery_voltage_to_percent (Finite 3.085) = Inr 55"
proof -
  have "v \<le> 2.70 \<longrightarrow> battery_voltage_to_percent (Finite v) = Inr 0"
    by (simp add: battery_voltage_to_percent_def curve_nth battery_search_low float_lt_def)
  moreover have "battery_voltage_to_percent (Finite 3.80) = Inr 100"
    by (simp add: battery_eval)
  moreover have "battery_voltage_to_percent (Finite 3.045) = Inr 45"
    by (simp add: battery_eval)
  moreover have "battery_voltage_to_percent (Finite 3.085) = Inr 55"
    by (simp add: battery_eval)
  ultimately show ?thesis by blast
qed

theorem battery_interpolation_points_witness:
  "battery_voltage_to_percent (Finite 2.70) = Inr 0 \<and>
   battery_voltage_to_percent (Finite 1.5) = Inr 0 \<and>
   battery_voltage_to_percent (Finite (- 1)) = Inr 0"
  using battery_interpolation_points [of "2.70"] battery_interpolation_points [of "1.5"]
    battery_interpolation_points [of "- 1"]
  by simp

text \<open>The result at 3.045 is 45, not 55.\<close>

theorem battery_halfway_counterexample:
  "battery_voltage_to_percent (Finite ((3.02 + 3.07) / 2)) = Inr 45 \<and>
   battery_voltage_to_percent (Finite 3.045) \<noteq> Inr 55"
  by (simp add: battery_eval)

lemma interpolation_range:
  assumes "v0 < v" "v \<le> v1" "1 \<le> i" "i \<le> 10"
  shows "\<exists>p. to_uint8 (c_round (real ((10 - i) * 10) + 10 * (v - v0) / (v1 - v0))) = Inr p \<and>
             (10 - i) * 10 \<le> unat p \<and> unat p \<le> (10 - i) * 10 + 10"
proof -
  define x where "x = 10 * (v - v0) / (v1 - v0)"
  define p0 where "p0 = (10 - i) * 10"
  from assms have d: "0 < v1 - v0" by simp
  have q: "(v - v0) / (v1 - v0) \<le> 1" "0 < (v - v0) / (v1 - v0)"
    using assms d by (simp_all add: divide_le_eq)
  have "x = 10 * ((v - v0) / (v1 - v0))" by (simp add: x_def)
  with q have x: "0 < x" "x \<le> 10" by linarith+
  have p0: "p0 \<le> 90" using assms by (simp add: p0_def)
  let ?n = "c_round (real p0 + x)"
  have n: "?n = \<lfloor>real p0 + x + 1 / 2\<rfloor>" using x by (simp add: c_round_def)
  have lo: "int p0 \<le> ?n" unfolding n using x by (simp add: le_floor_iff)
  have hi: "?n \<le> int p0 + 10" unfolding n using x by (simp add: floor_le_iff)
  from lo hi p0 have r: "0 \<le> ?n" "?n \<le> 255" by simp_all
  then have u: "to_uint8 ?n = Inr (word_of_int ?n)" by (simp add: to_uint8_def)
  have "unat (word_of_int ?n :: uint8_t) = nat ?n"
    using r by (simp add: unat_eq_nat_uint uint_word_of_int take_bit_int_eq_self)
  with lo hi u show ?thesis
    unfolding x_def p0_def by (auto simp: nat_le_iff le_nat_iff)
qed

lemma battery_search_range:
  "i \<le> 11 \<Longrightarrow> (\<forall>j<i. v \<le> battery_discharge_curve ! j) \<Longrightarrow>
   v \<le> battery_discharge_curve ! 0 \<Longrightarrow> voltage = Finite v \<Longrightarrow>
   \<exists>p. battery_search i voltage = Inr p \<and> unat p \<le> 100"
proof (induction i voltage rule: battery_search.induct)
  case (1 i voltage)
  show ?case
  proof (cases "i < length battery_discharge_curve")
    case False
    then show ?thesis by (subst battery_search.simps) simp
  next
    case True
    then have i: "i < 11" by (simp add: curve_length)
    show ?thesis
    proof (cases "float_lt (battery_discharge_curve ! i) voltage")
      case False
      then have "\<forall>j<i + 1. v \<le> battery_discharge_curve ! j"
        using 1(3,5) by (auto simp: less_Suc_eq float_lt_def)
      from 1(1) [OF True False _ this 1(4,5)] i
      obtain p where "battery_search (i + 1) voltage = Inr p" "unat p \<le> 100" by auto
      with True False show ?thesis by (subst battery_search.simps) simp
    next
      case flt: True
      then have lt: "battery_discharge_curve ! i < v"
        using 1(5) by (simp add: float_lt_def)
      with 1(4) have pos: "0 < i" by (cases "i = 0") auto
      with 1(3) have up: "v \<le> battery_discharge_curve ! (i - 1)" by simp
      from interpolation_range [OF lt up, of i] pos i
      obtain p where "to_uint8 (c_round (real ((10 - i) * 10) +
          10 * (v - battery_discharge_curve ! i) /
            (battery_discharge_curve ! (i - 1) - battery_discharge_curve ! i))) = Inr p"
        "unat p \<le> (10 - i) * 10 + 10"
        by auto
      moreover from lt up have "battery_discharge_curve ! (i - 1) - battery_discharge_curve ! i \<noteq> 0"
        by simp
      moreover have "(10 - i) * 10 + 10 \<le> 100" using pos by simp
      ultimately show ?thesis
        using True flt pos 1(5) by (subst battery_search.simps) (simp add: Let_def)
    qed
  qed
qed

text \<open>
  Claim C9. For every voltage, finite or not, \<^verbatim>\<open>battery_voltage_to_percent\<close> returns a
  value, and the value is at most 100. In the model a read of
  \<open>battery_discharge_curve[i - 1]\<close> at \<open>i = 0\<close> and a zero divisor are error results, so
  the theorem says that neither occurs: the interpolation branch is reached only at an
  index \<open>i \<ge> 1\<close>, with \<open>curve[i] < voltage \<le> curve[i - 1]\<close>.
\<close>

theorem battery_percent_total:
  "\<exists>p. battery_voltage_to_percent voltage = Inr p \<and> unat p \<le> 100"
proof (cases "float_lt (battery_discharge_curve ! 0) voltage")
  case True
  then show ?thesis by (simp add: battery_voltage_to_percent_def)
next
  case False
  show ?thesis
  proof (cases voltage)
    case (Finite v)
    with False have "v \<le> battery_discharge_curve ! 0" by (simp add: float_lt_def)
    from battery_search_range [of 0 v voltage, OF _ _ this Finite] False
    show ?thesis by (simp add: battery_voltage_to_percent_def)
  next
    case PlusInf
    with False show ?thesis by (simp add: float_lt_def)
  next
    case MinusInf
    then have "battery_search 0 voltage = Inr 0"
      by (intro battery_search_none_below) (simp add: float_lt_def)
    with False show ?thesis by (simp add: battery_voltage_to_percent_def)
  next
    case NaN
    then have "battery_search 0 voltage = Inr 0"
      by (intro battery_search_none_below) (simp add: float_lt_def)
    with False show ?thesis by (simp add: battery_voltage_to_percent_def)
  qed
qed

subsection \<open>Travelling mean in binary32 arithmetic\<close>

lemma binade_bounds: "- 126 \<le> binade k a \<and> binade k a \<le> int k - 126"
  by (induction k) auto

lemma binade_le: "binade k a = - 126 \<or> 2 powi (binade k a) \<le> a"
  by (induction k) auto

lemma binade_gt: "a < 2 powi (int k - 125) \<Longrightarrow> a < 2 powi (binade k a + 1)"
proof (induction k)
  case 0
  then show ?case by simp
next
  case (Suc k)
  show ?case
  proof (cases "2 powi (int (Suc k) - 126) \<le> a")
    case True
    with Suc.prems show ?thesis by (simp add: algebra_simps)
  next
    case False
    then have "a < 2 powi (int k - 125)" by (simp add: algebra_simps)
    from Suc.IH [OF this] False show ?thesis by simp
  qed
qed

lemma round_even_error: "\<bar>of_int (round_even y) - y\<bar> \<le> 1 / 2"
  unfolding round_even_def Let_def by (auto simp: abs_le_iff)

lemma round_even_of_int: "round_even (of_int n) = n"
  by (simp add: round_even_def)


lemma binade_unique:
  assumes "2 powi e \<le> a" "a < 2 powi (e + 1)" "- 126 \<le> e" "e \<le> 127"
  shows "binade 253 a = e"
proof -
  let ?b = "binade 253 a"
  have "2 powi (e + 1) \<le> (2::real) powi 128"
    using assms(4) by (intro power_int_increasing) auto
  with assms(2) have "a < 2 powi (int 253 - 125)" by simp
  from binade_gt [OF this] have up: "a < 2 powi (?b + 1)" .
  have "e \<le> ?b"
  proof (rule ccontr)
    assume "\<not> e \<le> ?b"
    then have "2 powi (?b + 1) \<le> (2::real) powi e"
      by (intro power_int_increasing) auto
    with up assms(1) show False by linarith
  qed
  moreover have "?b \<le> e"
  proof (rule ccontr)
    assume n: "\<not> ?b \<le> e"
    with assms(3) have "?b \<noteq> - 126" by linarith
    with binade_le [of 253 a] have "2 powi ?b \<le> a" by blast
    moreover from n have "2 powi (e + 1) \<le> (2::real) powi ?b"
      by (intro power_int_increasing) auto
    ultimately show False using assms(2) by linarith
  qed
  ultimately show ?thesis by linarith
qed

lemma binade_subnormal:
  assumes "a < 2 powi - 126"
  shows "binade 253 a = - 126"
proof (rule ccontr)
  assume n: "binade 253 a \<noteq> - 126"
  with binade_le [of 253 a] have le: "2 powi binade 253 a \<le> a" by blast
  from n binade_bounds [of 253 a] have "- 126 \<le> binade 253 a" by simp
  then have "2 powi - 126 \<le> (2::real) powi binade 253 a"
    by (intro power_int_increasing) auto
  with le assms show False by linarith
qed

lemma float_round_eval:
  assumes "2 powi e \<le> \<bar>x\<bar>" "\<bar>x\<bar> < 2 powi (e + 1)" "- 126 \<le> e" "e \<le> 126"
  shows "float_round x = Finite (of_int (round_even (x / 2 powi (e - 23))) * 2 powi (e - 23))"
proof -
  have "binade 253 \<bar>x\<bar> = e"
    using assms by (intro binade_unique) auto
  with assms(4) show ?thesis by (simp add: float_round_def Let_def)
qed

lemma float_round_error:
  assumes "\<bar>x\<bar> < 2 ^ 127"
  shows "\<exists>r. float_round x = Finite r \<and> \<bar>r - x\<bar> \<le> \<bar>x\<bar> / 2 ^ 24 + 2 powi - 150"
proof -
  define e where "e = binade 253 \<bar>x\<bar>"
  define q :: real where "q = 2 powi (e - 23)"
  define n where "n = round_even (x / q)"
  have q: "0 < q" by (simp add: q_def)
  have ne: "e \<noteq> 127"
  proof
    assume "e = 127"
    with binade_le [of 253 "\<bar>x\<bar>"] have "2 powi 127 \<le> \<bar>x\<bar>" by (auto simp: e_def)
    with assms show False by simp
  qed
  then have r: "float_round x = Finite (of_int n * q)"
    by (simp add: float_round_def Let_def e_def q_def n_def)
  have "\<bar>of_int n * q - x\<bar> = q * \<bar>of_int n - x / q\<bar>"
    using q by (simp add: abs_mult_pos' field_simps flip: abs_mult)
  also have "\<dots> \<le> q * (1 / 2)"
    using q round_even_error [of "x / q"] by (intro mult_left_mono) (auto simp: n_def)
  also have "\<dots> = 2 powi e / 2 ^ 24"
    by (simp add: q_def power_int_diff)
  finally have err: "\<bar>of_int n * q - x\<bar> \<le> 2 powi e / 2 ^ 24" .
  have "2 powi e / 2 ^ 24 \<le> \<bar>x\<bar> / 2 ^ 24 + 2 powi - 150"
  proof (cases "e = - 126")
    case True
    have "(2::real) powi - 126 / 2 ^ 24 = 2 powi (- 126 - 24)"
      using power_int_diff [of "2::real" "- 126" 24] by simp
    then show ?thesis using True by simp
  next
    case False
    with binade_le [of 253 "\<bar>x\<bar>"] have "2 powi e \<le> \<bar>x\<bar>" by (auto simp: e_def)
    then have "2 powi e / 2 ^ 24 \<le> \<bar>x\<bar> / 2 ^ 24" by (simp add: divide_right_mono)
    moreover have "0 \<le> (2::real) powi - 150" by simp
    ultimately show ?thesis by linarith
  qed
  with err r show ?thesis by (intro exI [of _ "of_int n * q"]) simp
qed

lemma float_round_int:
  assumes "\<bar>n\<bar> < 2 ^ 24"
  shows "float_round (of_int n) = Finite (of_int n)"
proof (cases "n = 0")
  case True
  then show ?thesis
    by (simp add: float_round_def Let_def round_even_def)
next
  case False
  define e where "e = binade 253 \<bar>of_int n\<bar>"
  have a1: "(1::real) \<le> \<bar>of_int n\<bar>" using False by (simp flip: of_int_abs)
  have a24: "\<bar>of_int n :: real\<bar> < 2 ^ 24" using assms by (simp flip: of_int_abs)
  then have "\<bar>of_int n :: real\<bar> < 2 powi (int 253 - 125)" by simp
  from binade_gt [OF this] have up: "\<bar>of_int n :: real\<bar> < 2 powi (e + 1)" by (simp add: e_def)
  have e0: "0 \<le> e"
  proof (rule ccontr)
    assume "\<not> 0 \<le> e"
    then have "2 powi (e + 1) \<le> (2::real) powi 0"
      by (intro power_int_increasing) auto
    with up a1 show False by simp
  qed
  then have "e \<noteq> - 126" by simp
  with binade_le [of 253 "\<bar>of_int n\<bar>"] have lo: "2 powi e \<le> \<bar>of_int n :: real\<bar>"
    by (auto simp: e_def)
  have e23: "e \<le> 23"
  proof (rule ccontr)
    assume "\<not> e \<le> 23"
    then have "2 powi 24 \<le> (2::real) powi e"
      by (intro power_int_increasing) auto
    with lo a24 show False by simp
  qed
  define k where "k = nat (23 - e)"
  have q: "(2::real) powi (e - 23) = 1 / 2 ^ k"
    using e23 by (simp add: k_def power_int_def power_one_over)
  have "of_int n / (2::real) powi (e - 23) = of_int (n * 2 ^ k)"
    by (simp add: q)
  then have "round_even (of_int n / 2 powi (e - 23)) = n * 2 ^ k"
    by (simp only: round_even_of_int)
  moreover have "e \<noteq> 127" using e23 by simp
  ultimately show ?thesis
    by (simp add: float_round_def Let_def q flip: e_def)
qed

lemma float_round_nat: "k < 2 ^ 24 \<Longrightarrow> float_round (real k) = Finite (real k)"
  using float_round_int [of "int k"] by simp

lemma float_round_Suc: "k \<le> 10 \<Longrightarrow> float_round (real k + 1) = Finite (real k + 1)"
  using float_round_nat [of "Suc k"] by (simp add: add.commute)

lemma float_round_1: "float_round 1 = Finite 1"
  using float_round_nat [of 1] by simp

lemma float_round_0: "float_round 0 = Finite 0"
  using float_round_nat [of 0] by simp

lemma travelling_count_step:
  assumes "count st = Finite (real k)" "k \<le> 10"
  shows "count (snd (battery_travelling_mean v st)) = Finite (real (min (k + 1) 10))"
  using assms by (auto simp: battery_travelling_mean_def Let_def float_round_Suc min_def)

lemma travelling_feed_count:
  "count st = Finite (real k) \<Longrightarrow> k \<le> 10 \<Longrightarrow> travelling_feed vs st = (ms, st') \<Longrightarrow>
   count st' = Finite (real (min (k + length vs) 10)) \<and> length ms = length vs"
proof (induction vs arbitrary: st k ms st')
  case Nil
  then show ?case by simp
next
  case (Cons v vs)
  obtain m st1 where s1: "battery_travelling_mean v st = (m, st1)" by (cases "battery_travelling_mean v st")
  obtain ms1 st2 where s2: "travelling_feed vs st1 = (ms1, st2)" by (cases "travelling_feed vs st1")
  from travelling_count_step [OF Cons.prems(1,2), of v] s1
  have c1: "count st1 = Finite (real (min (k + 1) 10))" "min (k + 1) 10 \<le> 10"
    by simp_all
  from Cons.IH [OF c1 s2] have "count st2 = Finite (real (min (min (k + 1) 10 + length vs) 10))"
    "length ms1 = length vs" by simp_all
  moreover from s1 s2 Cons.prems(3) have "st' = st2" "ms = m # ms1" by simp_all
  ultimately show ?case by (simp add: min_def)
qed

lemma travelling_ones_step:
  assumes "k \<le> 10"
  shows "battery_travelling_mean (Finite 1) \<lparr>mean = Finite 1, count = Finite (real k)\<rparr> =
           (Finite 1, \<lparr>mean = Finite 1, count = Finite (real (min (k + 1) 10))\<rparr>)"
proof -
  have "real k + 1 \<noteq> 0" by linarith
  with assms show ?thesis
    by (auto simp: battery_travelling_mean_def Let_def float_round_Suc float_round_nat
        float_round_1 min_def)
qed

lemma travelling_ones_first:
  "battery_travelling_mean (Finite 1) travelling_zero =
     (Finite 1, \<lparr>mean = Finite 1, count = Finite 1\<rparr>)"
  by (simp add: battery_travelling_mean_def travelling_zero_def float_round_0 float_round_1 Let_def)

lemma travelling_ones_feed:
  "k \<le> 10 \<Longrightarrow>
   travelling_feed (replicate n (Finite 1)) \<lparr>mean = Finite 1, count = Finite (real k)\<rparr> =
     (replicate n (Finite 1), \<lparr>mean = Finite 1, count = Finite (real (min (k + n) 10))\<rparr>)"
proof (induction n arbitrary: k)
  case 0
  then show ?case by simp
next
  case (Suc n)
  have "min (k + 1) 10 \<le> 10" by simp
  from Suc.IH [OF this] travelling_ones_step [OF Suc.prems] show ?case
    by (simp add: min_def)
qed

lemma travelling_eleven_ones:
  "travelling_feed (replicate 11 (Finite 1)) travelling_zero =
     (replicate 11 (Finite 1), \<lparr>mean = Finite 1, count = Finite 10\<rparr>)"
proof -
  have "replicate 11 (Finite 1) = Finite 1 # replicate 10 (Finite 1)"
    by (simp add: numeral_eq_Suc)
  moreover have "travelling_feed (replicate 10 (Finite 1)) \<lparr>mean = Finite 1, count = Finite (real 1)\<rparr> =
     (replicate 10 (Finite 1), \<lparr>mean = Finite 1, count = Finite (real (min (1 + 10) 10))\<rparr>)"
    by (rule travelling_ones_feed) simp
  ultimately show ?thesis
    by (simp add: travelling_ones_first)
qed

lemma rounding_chain:
  fixes a m v x b r :: real
  assumes a: "\<bar>a - m * 10\<bar> \<le> \<bar>m * 10\<bar> / 2 ^ 24 + 2 powi - 150"
    and v: "\<bar>v - x\<bar> \<le> \<bar>x\<bar> / 2 ^ 24 + 2 powi - 150"
    and b: "\<bar>b - (a + v)\<bar> \<le> \<bar>a + v\<bar> / 2 ^ 24 + 2 powi - 150"
    and r: "\<bar>r - b / 11\<bar> \<le> \<bar>b / 11\<bar> / 2 ^ 24 + 2 powi - 150"
  shows "\<bar>(r - m) - (x - m) / 11\<bar> \<le> (\<bar>m\<bar> + \<bar>x\<bar>) / 2 ^ 22 + 2 powi - 149"
proof -
  define eta :: real where "eta = 2 powi - 150"
  define M where "M = 10 * \<bar>m\<bar> + \<bar>x\<bar>"
  have eta: "0 \<le> eta" by (simp add: eta_def)
  have eta2: "(2::real) powi - 149 = 2 * eta"
    using power_int_add [of "2::real" "- 150" 1] by (simp add: eta_def)
  have M: "0 \<le> M" by (simp add: M_def)
  have a': "\<bar>a - 10 * m\<bar> \<le> 10 * \<bar>m\<bar> / 16777216 + eta"
    using a by (simp add: eta_def abs_mult mult.commute)
  have v': "\<bar>v - x\<bar> \<le> \<bar>x\<bar> / 16777216 + eta"
    using v by (simp add: eta_def)
  have b': "\<bar>b - (a + v)\<bar> \<le> \<bar>a + v\<bar> / 16777216 + eta"
    using b by (simp add: eta_def)
  have r': "\<bar>r - b / 11\<bar> \<le> \<bar>b\<bar> / 184549376 + eta"
    using r by (simp add: eta_def)
  have s1: "\<bar>a + v - (10 * m + x)\<bar> \<le> M / 16777216 + 2 * eta"
    using a' v' unfolding M_def by argo
  have "\<bar>10 * m + x\<bar> \<le> M" unfolding M_def by argo
  with s1 have s2: "\<bar>a + v\<bar> \<le> M + M / 16777216 + 2 * eta" by argo
  have s3: "\<bar>b - (10 * m + x)\<bar> \<le> (M + M / 16777216 + 2 * eta) / 16777216 + eta + M / 16777216 + 2 * eta"
    using b' s1 s2 by argo
  have s4: "\<bar>b\<bar> \<le> M + ((M + M / 16777216 + 2 * eta) / 16777216 + eta + M / 16777216 + 2 * eta)"
    using s3 \<open>\<bar>10 * m + x\<bar> \<le> M\<close> by argo
  have s5: "\<bar>r - (10 * m + x) / 11\<bar> \<le> \<bar>b\<bar> / 184549376 + eta + \<bar>b - (10 * m + x)\<bar> / 11"
    using r' by argo
  have "\<bar>r - (10 * m + x) / 11\<bar> \<le> 4 * M / (11 * 16777216) + 2 * eta"
    using s3 s4 s5 M eta by argo
  moreover have "4 * M / (11 * 16777216) \<le> (\<bar>m\<bar> + \<bar>x\<bar>) / 4194304"
    unfolding M_def by argo
  moreover have "(r - m) - (x - m) / 11 = r - (10 * m + x) / 11" by argo
  ultimately have "\<bar>(r - m) - (x - m) / 11\<bar> \<le> (\<bar>m\<bar> + \<bar>x\<bar>) / 4194304 + 2 * eta"
    by argo
  then show ?thesis
    unfolding eta2 by simp
qed

lemma rounding_bound:
  fixes y z B :: real
  assumes "\<bar>y - z\<bar> \<le> \<bar>z\<bar> / 2 ^ 24 + 2 powi - 150" "\<bar>z\<bar> \<le> B" "2 \<le> B"
  shows "\<bar>y\<bar> \<le> 2 * B"
proof -
  have "(2::real) powi - 150 \<le> 1" by simp
  moreover have "\<bar>y - z\<bar> \<le> \<bar>z\<bar> / 16777216 + 2 powi - 150" using assms(1) by simp
  ultimately show ?thesis using assms(2,3) by argo
qed

lemma travelling_step_error:
  assumes "\<bar>m\<bar> \<le> 2 ^ 100" "\<bar>x\<bar> \<le> 2 ^ 100"
  shows "\<exists>r. fst (battery_travelling_mean (Finite x) \<lparr>mean = Finite m, count = Finite 10\<rparr>) = Finite r \<and>
             \<bar>(r - m) - (x - m) / 11\<bar> \<le> (\<bar>m\<bar> + \<bar>x\<bar>) / 2 ^ 22 + 2 powi - 149"
proof -
  have m10: "\<bar>m * 10\<bar> \<le> 10 * 2 ^ 100" using assms(1) by simp
  then have "\<bar>m * 10\<bar> < 2 ^ 127" by simp
  from float_round_error [OF this] obtain a where
    a: "float_round (m * 10) = Finite a" "\<bar>a - m * 10\<bar> \<le> \<bar>m * 10\<bar> / 2 ^ 24 + 2 powi - 150"
    by blast
  have "\<bar>x * 1\<bar> < 2 ^ 127" using assms(2) by simp
  from float_round_error [OF this] obtain v where
    v: "float_round (x * 1) = Finite v" "\<bar>v - x\<bar> \<le> \<bar>x\<bar> / 2 ^ 24 + 2 powi - 150"
    by auto
  have ab: "\<bar>a\<bar> \<le> 2 * (10 * 2 ^ 100)"
    by (rule rounding_bound [OF a(2) m10]) simp
  have vb: "\<bar>v\<bar> \<le> 2 * 2 ^ 100"
    by (rule rounding_bound [OF v(2) assms(2)]) simp
  from ab vb have avb: "\<bar>a + v\<bar> \<le> 22 * 2 ^ 100" by simp
  then have "\<bar>a + v\<bar> < 2 ^ 127" by simp
  from float_round_error [OF this] obtain b where
    b: "float_round (a + v) = Finite b" "\<bar>b - (a + v)\<bar> \<le> \<bar>a + v\<bar> / 2 ^ 24 + 2 powi - 150"
    by blast
  have bb: "\<bar>b\<bar> \<le> 2 * (22 * 2 ^ 100)"
    by (rule rounding_bound [OF b(2) avb]) simp
  have d: "float_round (10 + 1) = Finite 11"
    using float_round_nat [of 11] by simp
  have "\<bar>b / 11\<bar> < 2 ^ 127" using bb by simp
  from float_round_error [OF this] obtain r where
    r: "float_round (b / 11) = Finite r" "\<bar>r - b / 11\<bar> \<le> \<bar>b / 11\<bar> / 2 ^ 24 + 2 powi - 150"
    by blast
  have "fst (battery_travelling_mean (Finite x) \<lparr>mean = Finite m, count = Finite 10\<rparr>) = Finite r"
    using a(1) v(1) b(1) d r(1) by (simp add: battery_travelling_mean_def Let_def)
  moreover have "\<bar>(r - m) - (x - m) / 11\<bar> \<le> (\<bar>m\<bar> + \<bar>x\<bar>) / 2 ^ 22 + 2 powi - 149"
    by (rule rounding_chain [OF a(2) v(2) b(2) r(2)])
  ultimately show ?thesis by blast
qed

lemma float_round_12_11: "float_round (12 / 11) = Finite (9151209 / 8388608)"
proof -
  have "float_round (12 / 11) =
      Finite (of_int (round_even ((12 / 11) / 2 powi (0 - 23))) * 2 powi (0 - 23))"
    by (rule float_round_eval) simp_all
  also have "round_even ((12 / 11) / 2 powi (0 - 23)) = 9151209"
    by (simp add: round_even_def Let_def)
  finally show ?thesis by simp
qed

lemma travelling_outlier_value:
  "battery_travelling_mean (Finite 2) \<lparr>mean = Finite 1, count = Finite 10\<rparr> =
     (Finite (9151209 / 8388608), \<lparr>mean = Finite (9151209 / 8388608), count = Finite 10\<rparr>)"
proof -
  have "float_round 10 = Finite 10" "float_round 2 = Finite 2" "float_round 12 = Finite 12"
    "float_round 11 = Finite 11"
    using float_round_nat [of 10] float_round_nat [of 2] float_round_nat [of 12]
      float_round_nat [of 11]
    by simp_all
  then show ?thesis
    by (simp add: battery_travelling_mean_def Let_def float_round_12_11)
qed

lemma travelling_ones_from_zero:
  "n < 10 \<Longrightarrow>
   travelling_feed (replicate (Suc n) (Finite 1)) travelling_zero =
     (replicate (Suc n) (Finite 1), \<lparr>mean = Finite 1, count = Finite (real (Suc n))\<rparr>)"
proof -
  assume n: "n < 10"
  have "travelling_feed (replicate n (Finite 1)) \<lparr>mean = Finite 1, count = Finite (real 1)\<rparr> =
     (replicate n (Finite 1), \<lparr>mean = Finite 1, count = Finite (real (min (1 + n) 10))\<rparr>)"
    by (rule travelling_ones_feed) simp
  with n show ?thesis
    by (simp add: travelling_ones_first min_def)
qed

text \<open>
  Claim C8, amended. A call of \<^verbatim>\<open>battery_travelling_mean\<close> with the value \<open>v\<close> returns and
  stores \<open>(mean * count + v * 1) / (count + 1)\<close>, each operation rounded to binary32, and
  adds one to \<open>count\<close> unless it is 10; after any number \<open>n\<close> of calls from the zero
  state \<open>count\<close> is \<open>min n 10\<close>. Eleven values 1 fed from the zero state give exactly 1
  at every call, from the first on. With \<open>count\<close> at 10, a mean \<open>a\<close> and a value \<open>x\<close>,
  both of magnitude at most \<open>2 ^ 100\<close>, the mean moves by \<open>(x - a) / 11\<close> up to
  rounding: the step differs from \<open>(x - a) / 11\<close> by at most
  \<open>(\<bar>a\<bar> + \<bar>x\<bar>) / 2 ^ 22 + 2 powi -149\<close>.
\<close>

theorem travelling_mean_recurrence:
  "(battery_travelling_mean v st = (m, st') \<longrightarrow>
      m = float_div (float_add (float_mul (mean st) (count st)) (float_mul v (Finite 1)))
            (float_add (count st) (Finite 1)) \<and>
      mean st' = m \<and>
      count st' = (if count st = Finite 10 then Finite 10 else float_add (count st) (Finite 1))) \<and>
   (travelling_feed vs travelling_zero = (ms, st'') \<longrightarrow>
      count st'' = Finite (real (min (length vs) 10))) \<and>
   travelling_feed (replicate 11 (Finite 1)) travelling_zero =
     (replicate 11 (Finite 1), \<lparr>mean = Finite 1, count = Finite 10\<rparr>) \<and>
   (\<bar>a\<bar> \<le> 2 ^ 100 \<and> \<bar>x\<bar> \<le> 2 ^ 100 \<longrightarrow>
      (\<exists>r. fst (battery_travelling_mean (Finite x) \<lparr>mean = Finite a, count = Finite 10\<rparr>) = Finite r \<and>
           \<bar>(r - a) - (x - a) / 11\<bar> \<le> (\<bar>a\<bar> + \<bar>x\<bar>) / 2 ^ 22 + 2 powi - 149))"
proof (intro conjI impI)
  assume "travelling_feed vs travelling_zero = (ms, st'')"
  from travelling_feed_count [of travelling_zero 0, OF _ _ this]
  show "count st'' = Finite (real (min (length vs) 10))" by (simp add: travelling_zero_def)
next
  show "travelling_feed (replicate 11 (Finite 1)) travelling_zero =
     (replicate 11 (Finite 1), \<lparr>mean = Finite 1, count = Finite 10\<rparr>)"
    by (rule travelling_eleven_ones)
next
  assume "\<bar>a\<bar> \<le> 2 ^ 100 \<and> \<bar>x\<bar> \<le> 2 ^ 100"
  then show "\<exists>r. fst (battery_travelling_mean (Finite x) \<lparr>mean = Finite a, count = Finite 10\<rparr>) = Finite r \<and>
           \<bar>(r - a) - (x - a) / 11\<bar> \<le> (\<bar>a\<bar> + \<bar>x\<bar>) / 2 ^ 22 + 2 powi - 149"
    using travelling_step_error [of a x] by blast
qed (auto simp: battery_travelling_mean_def Let_def)

theorem travelling_mean_recurrence_witness:
  "battery_travelling_mean (Finite 2) \<lparr>mean = Finite 1, count = Finite 10\<rparr> =
     (Finite (9151209 / 8388608), \<lparr>mean = Finite (9151209 / 8388608), count = Finite 10\<rparr>) \<and>
   Finite (9151209 / 8388608) =
     float_div (float_add (float_mul (Finite 1) (Finite 10)) (float_mul (Finite 2) (Finite 1)))
       (float_add (Finite 10) (Finite 1)) \<and>
   travelling_feed [Finite 1, Finite 1, Finite 1] travelling_zero =
     ([Finite 1, Finite 1, Finite 1], \<lparr>mean = Finite 1, count = Finite 3\<rparr>) \<and>
   (\<exists>r. fst (battery_travelling_mean (Finite 2) \<lparr>mean = Finite 1, count = Finite 10\<rparr>) = Finite r \<and>
        \<bar>(r - 1) - (2 - 1) / 11\<bar> \<le> (\<bar>1\<bar> + \<bar>2\<bar>) / 2 ^ 22 + 2 powi - 149)"
proof -
  let ?st = "\<lparr>mean = Finite 1, count = Finite 10\<rparr>"
  let ?m = "Finite (9151209 / 8388608)"
  let ?st' = "\<lparr>mean = ?m, count = Finite 10\<rparr>"
  let ?ones = "[Finite 1, Finite 1, Finite 1]"
  let ?st3 = "\<lparr>mean = Finite 1, count = Finite 3\<rparr>"
  have step: "battery_travelling_mean (Finite 2) ?st = (?m, ?st')"
    by (rule travelling_outlier_value)
  have feed: "travelling_feed ?ones travelling_zero = (?ones, ?st3)"
    using travelling_ones_from_zero [of 2] by (simp add: numeral_eq_Suc)
  have small: "\<bar>1::real\<bar> \<le> 2 ^ 100 \<and> \<bar>2::real\<bar> \<le> 2 ^ 100"
    by simp
  note inst = travelling_mean_recurrence [of "Finite 2" ?st ?m ?st' ?ones ?ones ?st3 1 2]
  from inst [THEN conjunct1] step
  have A: "?m = float_div (float_add (float_mul (Finite 1) (Finite 10)) (float_mul (Finite 2) (Finite 1)))
       (float_add (Finite 10) (Finite 1))"
    by simp
  from inst [THEN conjunct2, THEN conjunct2, THEN conjunct2] small
  have C: "\<exists>r. fst (battery_travelling_mean (Finite 2) ?st) = Finite r \<and>
        \<bar>(r - 1) - (2 - 1) / 11\<bar> \<le> (\<bar>1\<bar> + \<bar>2\<bar>) / 2 ^ 22 + 2 powi - 149"
    by blast
  from inst [THEN conjunct2, THEN conjunct1] feed
  have B: "count ?st3 = Finite (real (min (length ?ones) 10))"
    by blast
  from step A feed B C show ?thesis by blast
qed

text \<open>
  With mean 1, count 10 and the value 2 the result is \<open>9151209 / 8388608\<close>, the
  binary32 number next to \<open>12 / 11\<close>: the step is not \<open>(2 - 1) / 11\<close>, and it is larger
  than one part in 11 of the difference.
\<close>

theorem travelling_outlier_counterexample:
  "fst (battery_travelling_mean (Finite 2) \<lparr>mean = Finite 1, count = Finite 10\<rparr>) =
     Finite (9151209 / 8388608) \<and>
   (9151209 / 8388608 - 1 :: real) \<noteq> (2 - 1) / 11 \<and>
   \<bar>2 - 1 :: real\<bar> / (10 + 1) < \<bar>9151209 / 8388608 - 1\<bar>"
  by (simp add: travelling_outlier_value)

end
